theory Spec2Isabelle
  imports Main "HOL-Library.AList" "HOL-Library.Monad_Syntax"
begin

section \<open>The request builder and the response wrapper of unirest-go\<close>

text \<open>
  The development follows \<^verbatim>\<open>client.go\<close> (the version with \<^verbatim>\<open>makeCopy\<close>, \<^verbatim>\<open>path\<close> and
  \<^verbatim>\<open>AutoClone\<close>) and \<^verbatim>\<open>response.go\<close>.

  Go hands builders around as pointers (\<^verbatim>\<open>*HTTPClient\<close>), its maps are references and
  its slices are windows into shared backing arrays, so the model keeps an explicit
  store: a pointer to a builder is an index into \<open>clients\<close>, a map is an index into
  \<open>mapobjs\<close>, a backing array of \<^verbatim>\<open>[]*fileField\<close> is an index into \<open>arrays\<close>.
  Allocation appends to the store. Dereferencing an index that is not allocated is the
  nil dereference of the source, a panic: the operation returns \<open>None\<close>.

  A Go string is a byte sequence and so is \<^verbatim>\<open>[]byte\<close>; both are \<open>char list\<close>, whose
  characters are bytes. A \<^verbatim>\<open>[]byte\<close> that may be \<^verbatim>\<open>nil\<close> is a \<open>bytes option\<close>.
\<close>

subsection \<open>Data\<close>

type_synonym bytes = string
type_synonym ref = nat

text \<open>
  \<open>errors_New\<close> is an error made by this package with \<^verbatim>\<open>errors.New\<close>; the other
  constructors carry the message of an error that a library call returned.
\<close>

datatype error =
    errors_New string
  | URLError string
  | MultipartError string
  | TransportError string
  | ReadError string

text \<open>\<^verbatim>\<open>map[string][]string\<close> (\<^verbatim>\<open>url.Values\<close>, \<^verbatim>\<open>http.Header\<close>): one entry per key.\<close>

type_synonym Values = "(string \<times> string list) list"

record fileField =
  key :: string
  filename :: string
  content :: bytes

text \<open>A slice header: backing array and length; the capacity is the array's length.\<close>

record slice =
  arr :: ref
  len :: nat

text \<open>
  The struct \<^verbatim>\<open>HTTPClient\<close>. In the store the map fields are references and \<open>files\<close> is
  a slice header (\<open>'m = ref\<close>, \<open>'f = slice\<close>); the same record with the maps and the
  slice read out of the store (\<open>'m = Values\<close>, \<open>'f = fileField option list\<close>) is what an
  observer of the builder sees.
\<close>

record ('m, 'f) HTTPClient =
  query :: 'm
  form :: 'm
  files :: 'f
  url :: string
  path :: string
  body :: "bytes option"
  meth :: string
  header :: 'm
  basicAuth :: "string \<times> string"
  makeCopy :: bool

type_synonym obj = "(ref, slice) HTTPClient"
type_synonym builder = "(Values, fileField option list) HTTPClient"

text \<open>The fields of \<^verbatim>\<open>url.URL\<close> and \<^verbatim>\<open>http.Request\<close> that the code sets or reads.\<close>

record URL =
  Scheme :: string
  Host :: string
  Path :: string
  RawQuery :: string

text \<open>
  \<open>Header\<close> is a map reference: the request shares the map with whoever else holds the
  reference. \<open>Body\<close> is the reader over the body bytes, \<open>GetBody\<close> the bytes of the
  snapshot reader that \<^verbatim>\<open>req.GetBody\<close> hands out.
\<close>

record Request =
  Method :: string
  Header :: ref
  URL :: URL
  Body :: "bytes option"
  ContentLength :: nat
  GetBody :: "bytes option"

text \<open>
  An \<^verbatim>\<open>io.ReadCloser\<close> over a response body: the bytes still unread, the error a read
  meets after them (\<open>None\<close> is a clean end of stream), whether it was closed, and what
  the transport makes of a read after \<^verbatim>\<open>Close\<close> (\<open>None\<close>: end of stream, no error).
\<close>

record ReadCloser =
  pending :: bytes
  fault :: "string option"
  closed :: bool
  on_closed :: "string option"

record http_Response =
  StatusCode :: nat
  RespBody :: ReadCloser

record Response =
  Response :: "http_Response option"
  Err :: "error option"

text \<open>A part written to a \<^verbatim>\<open>multipart.Writer\<close>.\<close>

datatype part =
    FormFile string string bytes
  | FormField string string

text \<open>
  The store, and \<open>wire\<close>: the requests handed to the transport so far.
\<close>

record state =
  clients :: "obj list"
  mapobjs :: "Values list"
  arrays :: "fileField option list list"
  wire :: "Request list"

text \<open>
  What the code takes from the Go runtime and standard library, as parameters:
  \<^item> \<open>CanonicalMIMEHeaderKey\<close>: the key under which \<^verbatim>\<open>http.Header\<close> files a name;
  \<^item> \<open>Parse\<close>: \<^verbatim>\<open>url.Parse\<close>, \<open>Inl\<close> the message of its error;
  \<^item> \<open>Encode\<close>: \<^verbatim>\<open>url.Values.Encode\<close>;
  \<^item> \<open>encodeBasicAuth\<close>: the base64 credentials of \<^verbatim>\<open>Request.SetBasicAuth\<close>;
  \<^item> \<open>growslice\<close>: the capacity the runtime proposes when \<^verbatim>\<open>append\<close> outgrows an array
    of the given capacity;
  \<^item> \<open>randomBoundary\<close>: the boundary \<^verbatim>\<open>multipart.NewWriter\<close> draws;
  \<^item> \<open>rank\<close>: the order in which \<^verbatim>\<open>range\<close> visits the keys of a map (smaller first);
  \<^item> \<open>write_fault\<close>: the error, if any, of the next write to a multipart writer that
    holds the given parts;
  \<^item> \<open>render\<close>: the bytes of a closed multipart body, from boundary and parts;
  \<^item> \<open>Do\<close>: \<^verbatim>\<open>http.Client.Do\<close>, from the header fields and the request.
\<close>

record lib =
  CanonicalMIMEHeaderKey :: "string \<Rightarrow> string"
  Parse :: "string \<Rightarrow> string + URL"
  Encode :: "Values \<Rightarrow> string"
  encodeBasicAuth :: "string \<Rightarrow> string \<Rightarrow> string"
  growslice :: "nat \<Rightarrow> nat"
  randomBoundary :: string
  rank :: "string \<Rightarrow> nat"
  write_fault :: "part list \<Rightarrow> string option"
  render :: "string \<Rightarrow> part list \<Rightarrow> bytes"
  Do :: "Values \<Rightarrow> Request \<Rightarrow> string + http_Response"

subsection \<open>The store\<close>

definition deref :: "state \<Rightarrow> ref \<Rightarrow> obj option" where
  "deref s c = (if c < length (clients s) then Some (clients s ! c) else None)"

definition load_map :: "state \<Rightarrow> ref \<Rightarrow> Values option" where
  "load_map s r = (if r < length (mapobjs s) then Some (mapobjs s ! r) else None)"

definition load_array :: "state \<Rightarrow> ref \<Rightarrow> fileField option list option" where
  "load_array s a = (if a < length (arrays s) then Some (arrays s ! a) else None)"

definition new_client :: "obj \<Rightarrow> state \<Rightarrow> ref \<times> state" where
  "new_client x s = (length (clients s), s\<lparr>clients := clients s @ [x]\<rparr>)"

definition new_map :: "Values \<Rightarrow> state \<Rightarrow> ref \<times> state" where
  "new_map m s = (length (mapobjs s), s\<lparr>mapobjs := mapobjs s @ [m]\<rparr>)"

definition new_array :: "fileField option list \<Rightarrow> state \<Rightarrow> ref \<times> state" where
  "new_array a s = (length (arrays s), s\<lparr>arrays := arrays s @ [a]\<rparr>)"

text \<open>An assignment to fields of \<^verbatim>\<open>*c\<close>.\<close>

definition assign :: "(obj \<Rightarrow> obj) \<Rightarrow> ref \<Rightarrow> state \<Rightarrow> state option" where
  "assign f c s =
     (if c < length (clients s) then Some (s\<lparr>clients := (clients s)[c := f (clients s ! c)]\<rparr>)
      else None)"

text \<open>A write through a map reference.\<close>

definition modify_map :: "ref \<Rightarrow> (Values \<Rightarrow> Values) \<Rightarrow> state \<Rightarrow> state option" where
  "modify_map r f s =
     (if r < length (mapobjs s) then Some (s\<lparr>mapobjs := (mapobjs s)[r := f (mapobjs s ! r)]\<rparr>)
      else None)"

subsection \<open>Maps of string lists\<close>

text \<open>\<^verbatim>\<open>m[key]\<close>: the values of the key, the nil slice when the key is absent.\<close>

definition index :: "Values \<Rightarrow> string \<Rightarrow> string list" where
  "index m k = (case map_of m k of None \<Rightarrow> [] | Some vs \<Rightarrow> vs)"

text \<open>\<^verbatim>\<open>url.Values.Add\<close>: \<^verbatim>\<open>v[key] = append(v[key], value)\<close>.\<close>

definition Values_Add :: "string \<Rightarrow> string \<Rightarrow> Values \<Rightarrow> Values" where
  "Values_Add k v m = AList.update k (index m k @ [v]) m"

text \<open>\<^verbatim>\<open>http.Header\<close>'s \<^verbatim>\<open>Add\<close>, \<^verbatim>\<open>Set\<close> and \<^verbatim>\<open>Del\<close> work on the canonical form of the key.\<close>

definition Header_Add :: "lib \<Rightarrow> string \<Rightarrow> string \<Rightarrow> Values \<Rightarrow> Values" where
  "Header_Add L k v m = Values_Add (CanonicalMIMEHeaderKey L k) v m"

definition Header_Set :: "lib \<Rightarrow> string \<Rightarrow> string \<Rightarrow> Values \<Rightarrow> Values" where
  "Header_Set L k v m = AList.update (CanonicalMIMEHeaderKey L k) [v] m"

definition Header_Del :: "lib \<Rightarrow> string \<Rightarrow> Values \<Rightarrow> Values" where
  "Header_Del L k m = AList.delete (CanonicalMIMEHeaderKey L k) m"

text \<open>\<^verbatim>\<open>copy(dst, src)\<close> copies as many elements as the shorter of the two holds.\<close>

definition copy_strings :: "string list \<Rightarrow> string list \<Rightarrow> string list" where
  "copy_strings dst src = take (length dst) src @ drop (length src) dst"

text \<open>
  \<^verbatim>\<open>copyMap\<close>: a new map; for each entry a new slice of the same length, filled by
  \<^verbatim>\<open>copy\<close>.
\<close>

definition copy_entries :: "Values \<Rightarrow> Values" where
  "copy_entries m =
     foldl (\<lambda>clone (k, vs). AList.update k (copy_strings (replicate (length vs) []) vs) clone)
       [] m"

definition copyMap :: "ref \<Rightarrow> state \<Rightarrow> (ref \<times> state) option" where
  "copyMap r s = do { m \<leftarrow> load_map s r; Some (new_map (copy_entries m) s) }"

subsection \<open>Strings and slices\<close>

text \<open>\<^verbatim>\<open>strings.TrimRight(s, cutset)\<close>: \<open>s\<close> without its trailing bytes from \<open>cutset\<close>.\<close>

definition TrimRight :: "string \<Rightarrow> string \<Rightarrow> string" where
  "TrimRight s cutset = rev (dropWhile (\<lambda>x. x \<in> set cutset) (rev s))"

text \<open>
  \<^verbatim>\<open>append(sl, f)\<close> on a \<^verbatim>\<open>[]*fileField\<close>: with spare capacity the element is written into
  the shared backing array at index \<open>len\<close>; without, a new and sufficiently large array
  receives a copy of the elements and the new one. Cells beyond the length are nil.
\<close>

definition append_file :: "lib \<Rightarrow> slice \<Rightarrow> fileField \<Rightarrow> state \<Rightarrow> (slice \<times> state) option" where
  "append_file L sl f s = do {
     a \<leftarrow> load_array s (arr sl);
     if len sl < length a
     then Some (sl\<lparr>len := len sl + 1\<rparr>,
                s\<lparr>arrays := (arrays s)[arr sl := a[len sl := Some f]]\<rparr>)
     else let n = max (len sl + 1) (growslice L (length a));
              (a', s') = new_array (take (len sl) a @ [Some f] @ replicate (n - (len sl + 1)) None) s
          in Some (\<lparr>arr = a', len = len sl + 1\<rparr>, s')
   }"


definition s2b :: "string \<Rightarrow> bytes" where
  "s2b s = s"

subsection \<open>The builder\<close>

definition New :: "state \<Rightarrow> ref \<times> state" where
  "New s =
     (let (q, s) = new_map [] s;
          (f, s) = new_map [] s;
          (h, s) = new_map [] s;
          (a, s) = new_array [] s
      in new_client
           \<lparr>query = q, form = f, files = \<lparr>arr = a, len = 0\<rparr>, url = [], path = [],
            body = None, meth = ''GET'', header = h, basicAuth = ([], []),
            makeCopy = True\<rparr> s)"

definition Clone :: "ref \<Rightarrow> state \<Rightarrow> (ref \<times> state) option" where
  "Clone c s = do {
     x \<leftarrow> deref s c;
     (q, s) \<leftarrow> copyMap (query x) s;
     (h, s) \<leftarrow> copyMap (header x) s;
     (f, s) \<leftarrow> copyMap (form x) s;
     Some (new_client (x\<lparr>query := q, header := h, form := f\<rparr>) s)
   }"

definition AutoClone :: "bool \<Rightarrow> ref \<Rightarrow> state \<Rightarrow> (ref \<times> state) option" where
  "AutoClone b c s = do {
     (c, s) \<leftarrow> Clone c s;
     s \<leftarrow> assign (\<lambda>x. x\<lparr>makeCopy := b\<rparr>) c s;
     Some (c, s)
   }"

text \<open>The prologue of every mutator: \<^verbatim>\<open>if c.makeCopy { c = c.Clone() }\<close>.\<close>

definition receiver :: "ref \<Rightarrow> state \<Rightarrow> (ref \<times> state) option" where
  "receiver c s = do { x \<leftarrow> deref s c; if makeCopy x then Clone c s else Some (c, s) }"

text \<open>A mutator: the prologue, the statements \<open>f\<close> on \<^verbatim>\<open>*c\<close>, \<^verbatim>\<open>return c\<close>.\<close>

definition chained :: "(ref \<Rightarrow> state \<Rightarrow> state option) \<Rightarrow> ref \<Rightarrow> state \<Rightarrow> (ref \<times> state) option" where
  "chained f c s = do { (c, s) \<leftarrow> receiver c s; s \<leftarrow> f c s; Some (c, s) }"

text \<open>Calls on the maps \<^verbatim>\<open>c.query\<close>, \<^verbatim>\<open>c.form\<close> and \<^verbatim>\<open>c.header\<close>.\<close>

definition on_query :: "(Values \<Rightarrow> Values) \<Rightarrow> ref \<Rightarrow> state \<Rightarrow> state option" where
  "on_query f c s = do { x \<leftarrow> deref s c; modify_map (query x) f s }"

definition on_form :: "(Values \<Rightarrow> Values) \<Rightarrow> ref \<Rightarrow> state \<Rightarrow> state option" where
  "on_form f c s = do { x \<leftarrow> deref s c; modify_map (form x) f s }"

definition on_header :: "(Values \<Rightarrow> Values) \<Rightarrow> ref \<Rightarrow> state \<Rightarrow> state option" where
  "on_header f c s = do { x \<leftarrow> deref s c; modify_map (header x) f s }"

text \<open>\<^verbatim>\<open>c.files = append(c.files, f)\<close>.\<close>

definition push_file :: "lib \<Rightarrow> fileField \<Rightarrow> ref \<Rightarrow> state \<Rightarrow> state option" where
  "push_file L f c s = do {
     x \<leftarrow> deref s c;
     (sl, s) \<leftarrow> append_file L (files x) f s;
     assign (\<lambda>x. x\<lparr>files := sl\<rparr>) c s
   }"

definition SetURL :: "string \<Rightarrow> ref \<Rightarrow> state \<Rightarrow> (ref \<times> state) option" where
  "SetURL u = chained (assign (\<lambda>x. x\<lparr>url := TrimRight u ''/''\<rparr>))"

definition AppendPath :: "string \<Rightarrow> ref \<Rightarrow> state \<Rightarrow> (ref \<times> state) option" where
  "AppendPath p = chained (\<lambda>c s.
     if p = [] then Some s
     else let p1 = (if hd p \<noteq> CHR ''/'' then ''/'' @ p else p);
              p2 = TrimRight p1 ''/''
          in assign (\<lambda>x. x\<lparr>path := path x @ p2\<rparr>) c s)"

definition AddQuery :: "string \<Rightarrow> string \<Rightarrow> ref \<Rightarrow> state \<Rightarrow> (ref \<times> state) option" where
  "AddQuery k v = chained (on_query (Values_Add k v))"

definition AddHeader :: "lib \<Rightarrow> string \<Rightarrow> string \<Rightarrow> ref \<Rightarrow> state \<Rightarrow> (ref \<times> state) option" where
  "AddHeader L k v = chained (on_header (Header_Add L k v))"

definition AddFormField :: "string \<Rightarrow> string \<Rightarrow> ref \<Rightarrow> state \<Rightarrow> (ref \<times> state) option" where
  "AddFormField k v = chained (\<lambda>c s. do {
     s \<leftarrow> on_form (Values_Add k v) c s;
     assign (\<lambda>x. x\<lparr>meth := ''POST''\<rparr>) c s
   })"

definition AddFile :: "lib \<Rightarrow> string \<Rightarrow> string \<Rightarrow> bytes \<Rightarrow> ref \<Rightarrow> state \<Rightarrow> (ref \<times> state) option" where
  "AddFile L k fn ct = chained (\<lambda>c s. do {
     s \<leftarrow> push_file L \<lparr>key = k, filename = fn, content = ct\<rparr> c s;
     assign (\<lambda>x. x\<lparr>meth := ''POST''\<rparr>) c s
   })"

definition SetBasicAuth :: "string \<Rightarrow> string \<Rightarrow> ref \<Rightarrow> state \<Rightarrow> (ref \<times> state) option" where
  "SetBasicAuth username password = chained (\<lambda>c s. do {
     s \<leftarrow> assign (\<lambda>x. x\<lparr>basicAuth := (username, snd (basicAuth x))\<rparr>) c s;
     assign (\<lambda>x. x\<lparr>basicAuth := (fst (basicAuth x), password)\<rparr>) c s
   })"

definition SetJSONBody :: "lib \<Rightarrow> bytes option \<Rightarrow> ref \<Rightarrow> state \<Rightarrow> (ref \<times> state) option" where
  "SetJSONBody L json = chained (\<lambda>c s. do {
     s \<leftarrow> assign (\<lambda>x. x\<lparr>body := json\<rparr>) c s;
     s \<leftarrow> on_header (Header_Set L ''Content-Type'' ''application/json'') c s;
     assign (\<lambda>x. x\<lparr>meth := ''POST''\<rparr>) c s
   })"

definition SetRawBody :: "lib \<Rightarrow> bytes option \<Rightarrow> ref \<Rightarrow> state \<Rightarrow> (ref \<times> state) option" where
  "SetRawBody L b = chained (\<lambda>c s. do {
     s \<leftarrow> assign (\<lambda>x. x\<lparr>body := b\<rparr>) c s;
     s \<leftarrow> assign (\<lambda>x. x\<lparr>meth := ''POST''\<rparr>) c s;
     on_header (Header_Del L ''Content-Type'') c s
   })"

definition Get :: "ref \<Rightarrow> state \<Rightarrow> (ref \<times> state) option" where
  "Get = chained (assign (\<lambda>x. x\<lparr>meth := ''GET''\<rparr>))"

definition Post :: "ref \<Rightarrow> state \<Rightarrow> (ref \<times> state) option" where
  "Post = chained (assign (\<lambda>x. x\<lparr>meth := ''POST''\<rparr>))"

subsection \<open>Materialization\<close>

text \<open>
  The multipart writer over a \<^verbatim>\<open>bytes.Buffer\<close> is the list of parts written so far.
  \<^verbatim>\<open>CreateFormFile\<close> and \<^verbatim>\<open>CreateFormField\<close> open a part, \<^verbatim>\<open>Write\<close> on the part just
  opened extends its data; each of them, and \<^verbatim>\<open>Close\<close>, can return an error.
\<close>

definition faulty :: "lib \<Rightarrow> part list \<Rightarrow> part list \<Rightarrow> error + part list" where
  "faulty L w w' = (case write_fault L w of Some e \<Rightarrow> Inl (MultipartError e) | None \<Rightarrow> Inr w')"

definition CreateFormFile :: "lib \<Rightarrow> part list \<Rightarrow> string \<Rightarrow> string \<Rightarrow> error + part list" where
  "CreateFormFile L w k fn = faulty L w (w @ [FormFile k fn []])"

definition CreateFormField :: "lib \<Rightarrow> part list \<Rightarrow> string \<Rightarrow> error + part list" where
  "CreateFormField L w k = faulty L w (w @ [FormField k []])"

fun extend :: "bytes \<Rightarrow> part \<Rightarrow> part" where
  "extend d (FormFile k fn ct) = FormFile k fn (ct @ d)"
| "extend d (FormField k v) = FormField k (v @ d)"

definition part_Write :: "lib \<Rightarrow> part list \<Rightarrow> bytes \<Rightarrow> error + part list" where
  "part_Write L w d = faulty L w (if w = [] then w else butlast w @ [extend d (last w)])"

definition WriteField :: "lib \<Rightarrow> part list \<Rightarrow> string \<Rightarrow> string \<Rightarrow> error + part list" where
  "WriteField L w k v =
     (case CreateFormField L w k of Inl e \<Rightarrow> Inl e | Inr w \<Rightarrow> part_Write L w v)"

definition Writer_Close :: "lib \<Rightarrow> part list \<Rightarrow> error + part list" where
  "Writer_Close L w = faulty L w w"

text \<open>
  \<^verbatim>\<open>FormDataContentType\<close>; the boundary that \<^verbatim>\<open>NewWriter\<close> draws is made of hexadecimal
  digits and needs no quoting.
\<close>

definition FormDataContentType :: "string \<Rightarrow> string" where
  "FormDataContentType b = ''multipart/form-data; boundary='' @ b"

text \<open>
  \<^verbatim>\<open>for _, file := range c.files\<close>: a nil element is a nil dereference (\<open>None\<close>).
\<close>

fun write_files :: "lib \<Rightarrow> part list \<Rightarrow> fileField option list \<Rightarrow> (error + part list) option" where
  "write_files L w [] = Some (Inr w)"
| "write_files L w (None # fs) = None"
| "write_files L w (Some file # fs) =
     (case CreateFormFile L w (key file) (filename file) of
        Inl e \<Rightarrow> Some (Inl e)
      | Inr w \<Rightarrow>
          (case part_Write L w (content file) of
             Inl e \<Rightarrow> Some (Inl e)
           | Inr w \<Rightarrow> write_files L w fs))"

text \<open>\<^verbatim>\<open>for _, value := range values\<close>.\<close>

fun write_values :: "lib \<Rightarrow> part list \<Rightarrow> string \<Rightarrow> string list \<Rightarrow> error + part list" where
  "write_values L w k [] = Inr w"
| "write_values L w k (v # vs) =
     (case WriteField L w k v of Inl e \<Rightarrow> Inl e | Inr w \<Rightarrow> write_values L w k vs)"

text \<open>
  \<^verbatim>\<open>for key, values := range c.form\<close>: every entry once, in the order the runtime picks.
\<close>

definition range_order :: "lib \<Rightarrow> Values \<Rightarrow> Values" where
  "range_order L m = sort_key (\<lambda>(k, vs). rank L k) m"

fun write_entries :: "lib \<Rightarrow> part list \<Rightarrow> Values \<Rightarrow> error + part list" where
  "write_entries L w [] = Inr w"
| "write_entries L w ((k, vs) # m) =
     (case write_values L w k vs of Inl e \<Rightarrow> Inl e | Inr w \<Rightarrow> write_entries L w m)"

definition write_multipart ::
  "lib \<Rightarrow> fileField option list \<Rightarrow> Values \<Rightarrow> (error + part list) option" where
  "write_multipart L fs fm =
     (case write_files L [] fs of
        None \<Rightarrow> None
      | Some (Inl e) \<Rightarrow> Some (Inl e)
      | Some (Inr w) \<Rightarrow>
          (case write_entries L w (range_order L fm) of
             Inl e \<Rightarrow> Some (Inl e)
           | Inr w \<Rightarrow> Some (Writer_Close L w)))"

text \<open>The elements a slice header shows.\<close>

definition elements :: "state \<Rightarrow> slice \<Rightarrow> fileField option list option" where
  "elements s sl = do {
     a \<leftarrow> load_array s (arr sl);
     if len sl \<le> length a then Some (take (len sl) a) else None
   }"

text \<open>
  The body selection of \<^verbatim>\<open>ParseRequest\<close>: the chain \<^verbatim>\<open>if c.body != nil ... else if
  len(c.files) != 0 ... else if len(c.form) != 0\<close>. The result is the reader's bytes
  (\<open>None\<close>: the reader stays nil); the \<^verbatim>\<open>Content-Type\<close> is set through \<open>hdr\<close>, the
  request's header reference.
\<close>

definition select_body ::
  "lib \<Rightarrow> obj \<Rightarrow> ref \<Rightarrow> state \<Rightarrow> ((error + bytes option) \<times> state) option" where
  "select_body L x hdr s =
     (case body x of
        Some b \<Rightarrow> Some (Inr (Some b), s)
      | None \<Rightarrow>
          if len (files x) \<noteq> 0 then do {
            fs \<leftarrow> elements s (files x);
            fm \<leftarrow> load_map s (form x);
            r \<leftarrow> write_multipart L fs fm;
            case r of
              Inl e \<Rightarrow> Some (Inl e, s)
            | Inr w \<Rightarrow> do {
                s \<leftarrow> modify_map hdr
                       (Header_Set L ''Content-Type'' (FormDataContentType (randomBoundary L))) s;
                Some (Inr (Some (render L (randomBoundary L) w)), s)
              }
          }
          else do {
            fm \<leftarrow> load_map s (form x);
            if length fm \<noteq> 0 then do {
              s \<leftarrow> modify_map hdr
                     (Header_Set L ''Content-Type'' ''application/x-www-form-urlencoded'') s;
              Some (Inr (Some (s2b (Encode L fm))), s)
            }
            else Some (Inr None, s)
          })"

definition ParseRequest :: "lib \<Rightarrow> ref \<Rightarrow> state \<Rightarrow> ((error + Request) \<times> state) option" where
  "ParseRequest L c s = do {
     x \<leftarrow> deref s c;
     let hdr = header x;
     s \<leftarrow> modify_map hdr (Header_Set L ''User-Agent'' ''Unirest-Go/1.0'') s;
     s \<leftarrow> (if fst (basicAuth x) \<noteq> []
            then modify_map hdr
                   (Header_Set L ''Authorization''
                      (''Basic '' @ encodeBasicAuth L (fst (basicAuth x)) (snd (basicAuth x)))) s
            else Some s);
     case Parse L (url x @ path x) of
       Inl e \<Rightarrow> Some (Inl (URLError e), s)
     | Inr u \<Rightarrow> do {
         q \<leftarrow> load_map s (query x);
         let u = (if length q \<noteq> 0 then u\<lparr>RawQuery := Encode L q\<rparr> else u);
         fm \<leftarrow> load_map s (form x);
         if body x \<noteq> None \<and> (len (files x) \<noteq> 0 \<or> length fm \<noteq> 0)
         then Some (Inl (errors_New
                ''unirest-go: can send this request with multiple content type''), s)
         else do {
           (r, s) \<leftarrow> select_body L x hdr s;
           case r of
             Inl e \<Rightarrow> Some (Inl e, s)
           | Inr reader \<Rightarrow>
               Some (Inr \<lparr>Method = meth x, Header = hdr, URL = u, Body = reader,
                          ContentLength = (case reader of None \<Rightarrow> 0 | Some b \<Rightarrow> length b),
                          GetBody = reader\<rparr>, s)
         }
       }
   }"

text \<open>
  \<^verbatim>\<open>Send\<close>: a request that reaches \<^verbatim>\<open>httpclient.Do\<close> is appended to \<open>wire\<close>.
\<close>

definition Send :: "lib \<Rightarrow> ref \<Rightarrow> state \<Rightarrow> (Response \<times> state) option" where
  "Send L c s = do {
     (r, s) \<leftarrow> ParseRequest L c s;
     case r of
       Inl err \<Rightarrow> Some (\<lparr>Response = None, Err = Some err\<rparr>, s)
     | Inr req \<Rightarrow> do {
         h \<leftarrow> load_map s (Header req);
         let s = s\<lparr>wire := wire s @ [req]\<rparr>;
         case Do L h req of
           Inl e \<Rightarrow> Some (\<lparr>Response = None, Err = Some (TransportError e)\<rparr>, s)
         | Inr resp \<Rightarrow> Some (\<lparr>Response = Some resp, Err = None\<rparr>, s)
       }
   }"

subsection \<open>The response wrapper\<close>

text \<open>
  \<^verbatim>\<open>ioutil.ReadAll\<close> reads to the end of the stream: the bytes read and the error that
  stopped it, if one did.
\<close>

definition ReadAll :: "ReadCloser \<Rightarrow> (bytes \<times> error option) \<times> ReadCloser" where
  "ReadAll b =
     (if closed b then (([], map_option ReadError (on_closed b)), b)
      else ((pending b, map_option ReadError (fault b)), b\<lparr>pending := []\<rparr>))"

definition Close :: "ReadCloser \<Rightarrow> ReadCloser" where
  "Close b = b\<lparr>closed := True\<rparr>"

text \<open>
  \<^verbatim>\<open>AsBytes\<close> returns the bytes or the error, and leaves the wrapper with its body read
  and closed.
\<close>

definition AsBytes :: "Response \<Rightarrow> (error + bytes) \<times> Response" where
  "AsBytes r =
     (case Err r of
        Some e \<Rightarrow> (Inl e, r)
      | None \<Rightarrow>
          (case Response r of
             None \<Rightarrow> (Inl (errors_New ''the request is not sent''), r)
           | Some resp \<Rightarrow>
               (let ((buf, err), b) = ReadAll (RespBody resp);
                    r' = r\<lparr>Response := Some (resp\<lparr>RespBody := Close b\<rparr>)\<rparr>
                in case err of Some e \<Rightarrow> (Inl e, r') | None \<Rightarrow> (Inr buf, r'))))"


section \<open>Observation, invariant and calls\<close>

subsection \<open>What a holder of a builder sees\<close>

text \<open>
  \<open>resolve\<close> puts the contents of the maps and the visible elements of the slice in
  the place of the references. \<open>observe\<close> reads them out of the store for the builder
  behind a pointer; it is \<open>None\<close> for a dangling pointer. \<open>view\<close> is the same
  reading without the checks, for stores that satisfy the invariant below.
\<close>

definition resolve :: "Values \<Rightarrow> Values \<Rightarrow> Values \<Rightarrow> fileField option list \<Rightarrow> obj \<Rightarrow> builder" where
  "resolve q fm h fs x =
     \<lparr>query = q, form = fm, files = fs, url = url x, path = path x, body = body x,
      meth = meth x, header = h, basicAuth = basicAuth x, makeCopy = makeCopy x\<rparr>"

definition observe :: "state \<Rightarrow> ref \<Rightarrow> builder option" where
  "observe s c = do {
     x \<leftarrow> deref s c;
     q \<leftarrow> load_map s (query x);
     fm \<leftarrow> load_map s (form x);
     h \<leftarrow> load_map s (header x);
     fs \<leftarrow> elements s (files x);
     Some (resolve q fm h fs x)
   }"

definition view :: "state \<Rightarrow> ref \<Rightarrow> builder" where
  "view s c =
     (let x = clients s ! c
      in resolve (mapobjs s ! query x) (mapobjs s ! form x) (mapobjs s ! header x)
           (take (len (files x)) (arrays s ! arr (files x))) x)"

subsection \<open>The invariant of the store\<close>

text \<open>
  Every map has one entry per key; every builder's references are allocated, its slice
  fits its backing array and shows no nil element; no map is referenced twice, neither
  by two builders nor by two fields of one. \<^verbatim>\<open>New\<close> establishes this and every
  operation keeps it (\<open>wfs_New\<close>, \<open>Clone_ok\<close>, \<open>chained_ok\<close>, \<open>ParseRequest_ok\<close>).
\<close>

definition mrefs :: "obj \<Rightarrow> ref list" where
  "mrefs x = [query x, form x, header x]"

definition wf_client :: "state \<Rightarrow> obj \<Rightarrow> bool" where
  "wf_client s x \<longleftrightarrow>
     list_all (\<lambda>r. r < length (mapobjs s)) (mrefs x) \<and>
     arr (files x) < length (arrays s) \<and>
     len (files x) \<le> length (arrays s ! arr (files x)) \<and>
     None \<notin> set (take (len (files x)) (arrays s ! arr (files x)))"

definition wfs :: "state \<Rightarrow> bool" where
  "wfs s \<longleftrightarrow>
     list_all (\<lambda>m. distinct (map fst m)) (mapobjs s) \<and>
     list_all (wf_client s) (clients s) \<and>
     distinct (concat (map mrefs (clients s)))"

definition empty_state :: state where
  "empty_state = \<lparr>clients = [], mapobjs = [], arrays = [], wire = []\<rparr>"

subsection \<open>Statements on a builder and their effect on what is seen\<close>

text \<open>
  \<open>scalar g e\<close>: the assignment \<open>g\<close> leaves the references and the slice header alone
  and changes the other fields as \<open>e\<close> does. \<open>keeps f\<close>: \<open>f\<close> leaves a map with one
  entry per key. \<open>safe s c b\<close>: another builder \<open>b\<close> shows no element of a shared
  backing array beyond the length of \<open>c\<close>'s slice, the only cell an \<^verbatim>\<open>append\<close> on \<open>c\<close>
  can overwrite. \<open>implements f e\<close>: run on \<open>c\<close> in a store that satisfies the invariant,
  the statements \<open>f\<close> succeed, keep the invariant, allocate no builder, send nothing,
  change what \<open>c\<close> shows as \<open>e\<close> does, and change no builder that is safe from \<open>c\<close>.
\<close>

definition scalar :: "(obj \<Rightarrow> obj) \<Rightarrow> (builder \<Rightarrow> builder) \<Rightarrow> bool" where
  "scalar g e \<longleftrightarrow>
     (\<forall>x. mrefs (g x) = mrefs x \<and> files (g x) = files x) \<and>
     (\<forall>x q fm h fs. resolve q fm h fs (g x) = e (resolve q fm h fs x))"

definition keeps :: "(Values \<Rightarrow> Values) \<Rightarrow> bool" where
  "keeps f \<longleftrightarrow> (\<forall>m. distinct (map fst m) \<longrightarrow> distinct (map fst (f m)))"

definition safe :: "state \<Rightarrow> ref \<Rightarrow> ref \<Rightarrow> bool" where
  "safe s c b \<longleftrightarrow>
     b < length (clients s) \<and> b \<noteq> c \<and>
     (arr (files (clients s ! b)) = arr (files (clients s ! c)) \<longrightarrow>
        len (files (clients s ! b)) \<le> len (files (clients s ! c)))"

definition implements :: "(ref \<Rightarrow> state \<Rightarrow> state option) \<Rightarrow> (builder \<Rightarrow> builder) \<Rightarrow> bool" where
  "implements f e \<longleftrightarrow>
     (\<forall>s c. wfs s \<longrightarrow> c < length (clients s) \<longrightarrow>
        (\<exists>s'. f c s = Some s' \<and> wfs s' \<and> length (clients s') = length (clients s) \<and>
              wire s' = wire s \<and> view s' c = e (view s c) \<and>
              (\<forall>b. safe s c b \<longrightarrow> safe s' c b \<and> view s' b = view s b)))"

subsection \<open>The mutators as calls\<close>

text \<open>
  One constructor per mutator, \<open>invoke\<close> to run it on a builder in the store, and
  \<open>effect\<close>: what the statements of the mutator do to the builder they run on, read
  off the assignments and map calls of its body.
\<close>

datatype call =
    CSetURL string
  | CAppendPath string
  | CAddQuery string string
  | CAddHeader string string
  | CAddFormField string string
  | CAddFile string string bytes
  | CSetBasicAuth string string
  | CSetJSONBody "bytes option"
  | CSetRawBody "bytes option"
  | CGet
  | CPost

fun invoke :: "lib \<Rightarrow> call \<Rightarrow> ref \<Rightarrow> state \<Rightarrow> (ref \<times> state) option" where
  "invoke L (CSetURL u) = SetURL u"
| "invoke L (CAppendPath p) = AppendPath p"
| "invoke L (CAddQuery k v) = AddQuery k v"
| "invoke L (CAddHeader k v) = AddHeader L k v"
| "invoke L (CAddFormField k v) = AddFormField k v"
| "invoke L (CAddFile k fn ct) = AddFile L k fn ct"
| "invoke L (CSetBasicAuth username password) = SetBasicAuth username password"
| "invoke L (CSetJSONBody json) = SetJSONBody L json"
| "invoke L (CSetRawBody b) = SetRawBody L b"
| "invoke L CGet = Get"
| "invoke L CPost = Post"

fun effect :: "lib \<Rightarrow> call \<Rightarrow> builder \<Rightarrow> builder" where
  "effect L (CSetURL u) b = b\<lparr>url := TrimRight u ''/''\<rparr>"
| "effect L (CAppendPath p) b =
     (if p = [] then b
      else b\<lparr>path := path b @ TrimRight (if hd p \<noteq> CHR ''/'' then ''/'' @ p else p) ''/''\<rparr>)"
| "effect L (CAddQuery k v) b = b\<lparr>query := Values_Add k v (query b)\<rparr>"
| "effect L (CAddHeader k v) b = b\<lparr>header := Header_Add L k v (header b)\<rparr>"
| "effect L (CAddFormField k v) b = b\<lparr>form := Values_Add k v (form b), meth := ''POST''\<rparr>"
| "effect L (CAddFile k fn ct) b =
     b\<lparr>files := files b @ [Some \<lparr>key = k, filename = fn, content = ct\<rparr>], meth := ''POST''\<rparr>"
| "effect L (CSetBasicAuth username password) b = b\<lparr>basicAuth := (username, password)\<rparr>"
| "effect L (CSetJSONBody json) b =
     b\<lparr>body := json,
       header := Header_Set L ''Content-Type'' ''application/json'' (header b),
       meth := ''POST''\<rparr>"
| "effect L (CSetRawBody r) b =
     b\<lparr>body := r, meth := ''POST'', header := Header_Del L ''Content-Type'' (header b)\<rparr>"
| "effect L CGet b = b\<lparr>meth := ''GET''\<rparr>"
| "effect L CPost b = b\<lparr>meth := ''POST''\<rparr>"

text \<open>A chain of calls: each mutator runs on the builder the one before returned.\<close>

fun invoke_all :: "lib \<Rightarrow> call list \<Rightarrow> ref \<Rightarrow> state \<Rightarrow> (ref \<times> state) option" where
  "invoke_all L [] c s = Some (c, s)"
| "invoke_all L (m # ms) c s =
     (case invoke L m c s of None \<Rightarrow> None | Some (c', s') \<Rightarrow> invoke_all L ms c' s')"

subsection \<open>Materialization, seen from the builder\<close>

text \<open>
  What \<^verbatim>\<open>ParseRequest\<close> computes from the state a builder shows: \<open>stamped\<close> is the
  header map after the \<^verbatim>\<open>User-Agent\<close> and \<^verbatim>\<open>Authorization\<close> writes, \<open>chosen_body\<close> the
  body selection with the header map it leaves, \<open>materialize\<close> the result of
  \<^verbatim>\<open>ParseRequest\<close> and the final header map. \<open>ParseRequest_run\<close> proves that the
  source function, run on the store, returns exactly this and writes exactly this
  header map through the builder's header reference \<open>hdr\<close>.
\<close>

definition stamped :: "lib \<Rightarrow> builder \<Rightarrow> Values" where
  "stamped L b =
     (let h = Header_Set L ''User-Agent'' ''Unirest-Go/1.0'' (header b)
      in if fst (basicAuth b) \<noteq> []
         then Header_Set L ''Authorization''
                (''Basic '' @ encodeBasicAuth L (fst (basicAuth b)) (snd (basicAuth b))) h
         else h)"

definition chosen_body :: "lib \<Rightarrow> builder \<Rightarrow> Values \<Rightarrow> (error + bytes option) \<times> Values" where
  "chosen_body L b h =
     (case body b of
        Some d \<Rightarrow> (Inr (Some d), h)
      | None \<Rightarrow>
          if files b \<noteq> [] then
            (case write_multipart L (files b) (form b) of
               None \<Rightarrow> (Inr None, h)
             | Some (Inl e) \<Rightarrow> (Inl e, h)
             | Some (Inr w) \<Rightarrow>
                 (Inr (Some (render L (randomBoundary L) w)),
                  Header_Set L ''Content-Type'' (FormDataContentType (randomBoundary L)) h))
          else if form b \<noteq> [] then
            (Inr (Some (s2b (Encode L (form b)))),
             Header_Set L ''Content-Type'' ''application/x-www-form-urlencoded'' h)
          else (Inr None, h))"

definition materialize :: "lib \<Rightarrow> ref \<Rightarrow> builder \<Rightarrow> (error + Request) \<times> Values" where
  "materialize L hdr b =
     (case Parse L (url b @ path b) of
        Inl e \<Rightarrow> (Inl (URLError e), stamped L b)
      | Inr u \<Rightarrow>
          if body b \<noteq> None \<and> (files b \<noteq> [] \<or> form b \<noteq> [])
          then (Inl (errors_New ''unirest-go: can send this request with multiple content type''),
                stamped L b)
          else
            (case chosen_body L b (stamped L b) of
               (Inl e, h) \<Rightarrow> (Inl e, h)
             | (Inr reader, h) \<Rightarrow>
                 (Inr \<lparr>Method = meth b, Header = hdr,
                       URL = (if query b \<noteq> [] then u\<lparr>RawQuery := Encode L (query b)\<rparr> else u),
                       Body = reader,
                       ContentLength = (case reader of None \<Rightarrow> 0 | Some d \<Rightarrow> length d),
                       GetBody = reader\<rparr>, h)))"

text \<open>
  The parts a multipart body is made of: one file part per attachment, in attachment
  order, then one field part per form value, key by key in the order \<^verbatim>\<open>range\<close> visits
  the form.
\<close>

definition file_parts :: "fileField option list \<Rightarrow> part list" where
  "file_parts fs = [FormFile (key f) (filename f) (content f). Some f \<leftarrow> fs]"

definition field_parts :: "lib \<Rightarrow> Values \<Rightarrow> part list" where
  "field_parts L fm = concat (map (\<lambda>(k, vs). map (FormField k) vs) (range_order L fm))"

subsection \<open>Examples and the wording of the specification\<close>

text \<open>
  \<open>fresh\<close> is the builder \<^verbatim>\<open>New\<close> makes. \<open>sample_lib\<close> is an environment to evaluate
  examples in; the theorems below hold for every environment. Its \<open>Parse\<close> refuses
  what \<^verbatim>\<open>url.Parse\<close> refuses first, a string with an ASCII control byte.
\<close>

definition fresh :: builder where
  "fresh = \<lparr>query = [], form = [], files = [], url = [], path = [], body = None,
            meth = ''GET'', header = [], basicAuth = ([], []), makeCopy = True\<rparr>"

definition stringContainsCTLByte :: "string \<Rightarrow> bool" where
  "stringContainsCTLByte s = list_ex (\<lambda>b. of_char b < (32::nat) \<or> of_char b = (127::nat)) s"

definition sample_lib :: lib where
  "sample_lib =
     \<lparr>CanonicalMIMEHeaderKey = (\<lambda>k. k),
      Parse = (\<lambda>u. if stringContainsCTLByte u
                    then Inl ''net/url: invalid control character in URL''
                    else Inr \<lparr>Scheme = [], Host = [], Path = u, RawQuery = []\<rparr>),
      Encode = (\<lambda>m. concat (map (\<lambda>(k, vs). concat (map (\<lambda>v. k @ ''='' @ v @ ''&'') vs)) m)),
      encodeBasicAuth = (\<lambda>u p. u @ '':'' @ p),
      growslice = (\<lambda>n. 2 * n),
      randomBoundary = ''xyz'',
      rank = (\<lambda>k. 0),
      write_fault = (\<lambda>w. None),
      render = (\<lambda>b ps. concat (map (\<lambda>p. ''--'' @ b @
                 (case p of FormFile k fn ct \<Rightarrow> k @ fn @ ct | FormField k v \<Rightarrow> k @ v)) ps)),
      Do = (\<lambda>h r. Inr \<lparr>StatusCode = 200,
                RespBody = \<lparr>pending = ''true'', fault = None, closed = False,
                            on_closed = None\<rparr>\<rparr>)\<rparr>"


text \<open>
  The store after \<^verbatim>\<open>c := New(); d := c.AutoClone(false)\<close>, started from the empty
  store: builder \<open>0\<close> is \<open>c\<close>, builder \<open>1\<close> is \<open>d\<close>, whose flag is false
  (\<open>off_state_reached\<close>).
\<close>

definition off_state :: state where
  "off_state =
     \<lparr>clients =
        [\<lparr>query = 0, form = 1, files = \<lparr>arr = 0, len = 0\<rparr>, url = [], path = [],
          body = None, meth = ''GET'', header = 2, basicAuth = ([], []), makeCopy = True\<rparr>,
         \<lparr>query = 3, form = 5, files = \<lparr>arr = 0, len = 0\<rparr>, url = [], path = [],
          body = None, meth = ''GET'', header = 4, basicAuth = ([], []), makeCopy = False\<rparr>],
      mapobjs = [[], [], [], [], [], []], arrays = [[]], wire = []\<rparr>"


section \<open>The store: invariant and frame lemmas\<close>

lemma update_fresh: "k \<notin> fst ` set al \<Longrightarrow> AList.update k v al = al @ [(k, v)]"
  by (induction al) auto

lemma copy_strings_id [simp]: "copy_strings (replicate (length vs) []) vs = vs"
  by (simp add: copy_strings_def)

lemma copy_entries_aux:
  "distinct (map fst (acc @ m)) \<Longrightarrow>
   foldl (\<lambda>clone (k, vs). AList.update k (copy_strings (replicate (length vs) []) vs) clone) acc m
     = acc @ m"
proof (induction m arbitrary: acc)
  case Nil
  then show ?case by simp
next
  case (Cons e m)
  obtain k vs where e: "e = (k, vs)" by (cases e)
  from Cons.prems have fresh: "k \<notin> fst ` set acc" by (auto simp: e)
  from Cons.prems have d: "distinct (map fst ((acc @ [(k, vs)]) @ m))" by (simp add: e)
  show ?case using Cons.IH [OF d] by (simp add: e update_fresh [OF fresh])
qed

lemma copy_entries_id: "distinct (map fst m) \<Longrightarrow> copy_entries m = m"
  using copy_entries_aux [of "[]" m] by (simp add: copy_entries_def)

lemma wfs_empty: "wfs empty_state"
  by (simp add: wfs_def empty_state_def)


lemma wfsD:
  assumes "wfs s" "c < length (clients s)"
  shows "query (clients s ! c) < length (mapobjs s)"
    and "form (clients s ! c) < length (mapobjs s)"
    and "header (clients s ! c) < length (mapobjs s)"
    and "arr (files (clients s ! c)) < length (arrays s)"
    and "len (files (clients s ! c)) \<le> length (arrays s ! arr (files (clients s ! c)))"
    and "query (clients s ! c) \<noteq> form (clients s ! c)"
    and "query (clients s ! c) \<noteq> header (clients s ! c)"
    and "form (clients s ! c) \<noteq> header (clients s ! c)"
proof -
  from assms have w: "wf_client s (clients s ! c)"
    by (simp add: wfs_def list_all_length)
  then show "query (clients s ! c) < length (mapobjs s)"
    "form (clients s ! c) < length (mapobjs s)"
    "header (clients s ! c) < length (mapobjs s)"
    "arr (files (clients s ! c)) < length (arrays s)"
    "len (files (clients s ! c)) \<le> length (arrays s ! arr (files (clients s ! c)))"
    by (simp_all add: wf_client_def mrefs_def)
  from assms have "distinct (concat (map mrefs (clients s)))" by (simp add: wfs_def)
  then have "distinct (mrefs (clients s ! c))"
    using assms(2) by (simp add: distinct_concat_iff)
  then show "query (clients s ! c) \<noteq> form (clients s ! c)"
    "query (clients s ! c) \<noteq> header (clients s ! c)"
    "form (clients s ! c) \<noteq> header (clients s ! c)"
    by (auto simp: mrefs_def)
qed


lemma wfs_disjoint:
  assumes "wfs s" "c < length (clients s)" "d < length (clients s)" "c \<noteq> d"
  shows "set (mrefs (clients s ! c)) \<inter> set (mrefs (clients s ! d)) = {}"
proof -
  let ?xs = "map mrefs (clients s)"
  from assms have dc: "distinct (concat ?xs)" by (simp add: wfs_def)
  have ne: "[] \<notin> set ?xs" by (auto simp: mrefs_def)
  then have "removeAll [] ?xs = ?xs" by simp
  with dc have "distinct ?xs" by (simp add: distinct_concat_iff)
  then have "?xs ! c \<noteq> ?xs ! d"
    using assms(2-4) nth_eq_iff_index_eq [of ?xs c d] by simp
  moreover have "?xs ! c \<in> set ?xs" "?xs ! d \<in> set ?xs" using assms(2,3) by simp_all
  ultimately have "set (?xs ! c) \<inter> set (?xs ! d) = {}"
    using dc unfolding distinct_concat_iff by blast
  then show ?thesis using assms(2,3) by simp
qed

lemma wfs_other:
  assumes "wfs s" "c < length (clients s)" "d < length (clients s)" "c \<noteq> d"
  shows "query (clients s ! c) \<noteq> query (clients s ! d)"
    and "query (clients s ! c) \<noteq> form (clients s ! d)"
    and "query (clients s ! c) \<noteq> header (clients s ! d)"
    and "form (clients s ! c) \<noteq> query (clients s ! d)"
    and "form (clients s ! c) \<noteq> form (clients s ! d)"
    and "form (clients s ! c) \<noteq> header (clients s ! d)"
    and "header (clients s ! c) \<noteq> query (clients s ! d)"
    and "header (clients s ! c) \<noteq> form (clients s ! d)"
    and "header (clients s ! c) \<noteq> header (clients s ! d)"
  using wfs_disjoint [OF assms] by (auto simp: mrefs_def)


lemma wf_client_clients [simp]: "wf_client (s\<lparr>clients := cs\<rparr>) = wf_client s"
  by (rule ext) (simp add: wf_client_def)

lemma wf_client_wire [simp]: "wf_client (s\<lparr>wire := w\<rparr>) = wf_client s"
  by (rule ext) (simp add: wf_client_def)

lemma list_all_update: "list_all P xs \<Longrightarrow> P x \<Longrightarrow> list_all P (xs[i := x])"
  using set_update_subset_insert [of xs i x] by (auto simp: list_all_iff)

lemma wfs_clients_update:
  assumes "wfs s" "c < length (clients s)" "mrefs x' = mrefs (clients s ! c)" "wf_client s x'"
  shows "wfs (s\<lparr>clients := (clients s)[c := x']\<rparr>)"
proof -
  have "map mrefs ((clients s)[c := x']) = map mrefs (clients s)"
    using assms(2,3) by (simp add: map_update list_update_same_conv)
  moreover have "list_all (wf_client s) ((clients s)[c := x'])"
    using assms(1,4) by (simp add: wfs_def list_all_update)
  ultimately show ?thesis using assms(1) by (simp add: wfs_def)
qed

lemma wfs_map_update:
  assumes "wfs s" "distinct (map fst m')"
  shows "wfs (s\<lparr>mapobjs := (mapobjs s)[r := m']\<rparr>)"
proof -
  have "wf_client (s\<lparr>mapobjs := (mapobjs s)[r := m']\<rparr>) = wf_client s"
    by (rule ext) (simp add: wf_client_def)
  then show ?thesis using assms by (simp add: wfs_def list_all_update)
qed

lemma implements_assign:
  assumes "scalar g e"
  shows "implements (assign g) e"
  unfolding implements_def
proof (intro allI impI)
  fix s c
  assume w: "wfs s" and c: "c < length (clients s)"
  let ?s' = "s\<lparr>clients := (clients s)[c := g (clients s ! c)]\<rparr>"
  from assms have g: "mrefs (g (clients s ! c)) = mrefs (clients s ! c)"
      "files (g (clients s ! c)) = files (clients s ! c)"
      "query (g (clients s ! c)) = query (clients s ! c)"
      "form (g (clients s ! c)) = form (clients s ! c)"
      "header (g (clients s ! c)) = header (clients s ! c)"
    by (auto simp: scalar_def mrefs_def)
  have wc: "wf_client s (clients s ! c)" using w c by (simp add: wfs_def list_all_length)
  then have "wf_client s (g (clients s ! c))" by (simp add: wf_client_def g)
  then have w': "wfs ?s'" using wfs_clients_update [OF w c g(1)] by simp
  have v: "view ?s' c = e (view s c)"
    using assms c by (simp add: view_def Let_def g scalar_def)
  have fr: "\<forall>b. safe s c b \<longrightarrow> safe ?s' c b \<and> view ?s' b = view s b"
    by (auto simp: safe_def view_def Let_def g c)
  show "\<exists>s'. assign g c s = Some s' \<and> wfs s' \<and> length (clients s') = length (clients s) \<and>
          wire s' = wire s \<and> view s' c = e (view s c) \<and>
          (\<forall>b. safe s c b \<longrightarrow> safe s' c b \<and> view s' b = view s b)"
    using w' v fr c by (intro exI [of _ ?s']) (simp add: assign_def)
qed


lemma implements_on_query:
  assumes "keeps f"
  shows "implements (on_query f) (\<lambda>b. b\<lparr>query := f (query b)\<rparr>)"
  unfolding implements_def
proof (intro allI impI)
  fix s c
  assume w: "wfs s" and c: "c < length (clients s)"
  let ?r = "query (clients s ! c)"
  let ?s' = "s\<lparr>mapobjs := (mapobjs s)[?r := f (mapobjs s ! ?r)]\<rparr>"
  note d = wfsD [OF w c]
  have "distinct (map fst (mapobjs s ! ?r))"
    using w d by (simp add: wfs_def list_all_length)
  then have "distinct (map fst (f (mapobjs s ! ?r)))" using assms by (simp add: keeps_def)
  then have w': "wfs ?s'" by (rule wfs_map_update [OF w])
  have v: "view ?s' c = (view s c)\<lparr>query := f (query (view s c))\<rparr>"
    using d by (simp add: view_def Let_def resolve_def)
  have fr: "\<forall>b. safe s c b \<longrightarrow> safe ?s' c b \<and> view ?s' b = view s b"
  proof (intro allI impI)
    fix b assume b: "safe s c b"
    then have "b < length (clients s)" "c \<noteq> b" by (auto simp: safe_def)
    note o = wfs_other [OF w c this]
    show "safe ?s' c b \<and> view ?s' b = view s b"
      using b o by (simp add: safe_def view_def Let_def)
  qed
  show "\<exists>s'. on_query f c s = Some s' \<and> wfs s' \<and> length (clients s') = length (clients s) \<and>
          wire s' = wire s \<and> view s' c = (view s c)\<lparr>query := f (query (view s c))\<rparr> \<and>
          (\<forall>b. safe s c b \<longrightarrow> safe s' c b \<and> view s' b = view s b)"
    using w' v fr c d
    by (intro exI [of _ ?s']) (simp add: on_query_def deref_def modify_map_def)
qed

lemma implements_on_form:
  assumes "keeps f"
  shows "implements (on_form f) (\<lambda>b. b\<lparr>form := f (form b)\<rparr>)"
  unfolding implements_def
proof (intro allI impI)
  fix s c
  assume w: "wfs s" and c: "c < length (clients s)"
  let ?r = "form (clients s ! c)"
  let ?s' = "s\<lparr>mapobjs := (mapobjs s)[?r := f (mapobjs s ! ?r)]\<rparr>"
  note d = wfsD [OF w c]
  have "distinct (map fst (mapobjs s ! ?r))"
    using w d by (simp add: wfs_def list_all_length)
  then have "distinct (map fst (f (mapobjs s ! ?r)))" using assms by (simp add: keeps_def)
  then have w': "wfs ?s'" by (rule wfs_map_update [OF w])
  have v: "view ?s' c = (view s c)\<lparr>form := f (form (view s c))\<rparr>"
    using d by (simp add: view_def Let_def resolve_def)
  have fr: "\<forall>b. safe s c b \<longrightarrow> safe ?s' c b \<and> view ?s' b = view s b"
  proof (intro allI impI)
    fix b assume b: "safe s c b"
    then have "b < length (clients s)" "c \<noteq> b" by (auto simp: safe_def)
    note o = wfs_other [OF w c this]
    show "safe ?s' c b \<and> view ?s' b = view s b"
      using b o by (simp add: safe_def view_def Let_def)
  qed
  show "\<exists>s'. on_form f c s = Some s' \<and> wfs s' \<and> length (clients s') = length (clients s) \<and>
          wire s' = wire s \<and> view s' c = (view s c)\<lparr>form := f (form (view s c))\<rparr> \<and>
          (\<forall>b. safe s c b \<longrightarrow> safe s' c b \<and> view s' b = view s b)"
    using w' v fr c d
    by (intro exI [of _ ?s']) (simp add: on_form_def deref_def modify_map_def)
qed

lemma implements_on_header:
  assumes "keeps f"
  shows "implements (on_header f) (\<lambda>b. b\<lparr>header := f (header b)\<rparr>)"
  unfolding implements_def
proof (intro allI impI)
  fix s c
  assume w: "wfs s" and c: "c < length (clients s)"
  let ?r = "header (clients s ! c)"
  let ?s' = "s\<lparr>mapobjs := (mapobjs s)[?r := f (mapobjs s ! ?r)]\<rparr>"
  note d = wfsD [OF w c]
  have "distinct (map fst (mapobjs s ! ?r))"
    using w d by (simp add: wfs_def list_all_length)
  then have "distinct (map fst (f (mapobjs s ! ?r)))" using assms by (simp add: keeps_def)
  then have w': "wfs ?s'" by (rule wfs_map_update [OF w])
  have v: "view ?s' c = (view s c)\<lparr>header := f (header (view s c))\<rparr>"
    using d by (simp add: view_def Let_def resolve_def)
  have fr: "\<forall>b. safe s c b \<longrightarrow> safe ?s' c b \<and> view ?s' b = view s b"
  proof (intro allI impI)
    fix b assume b: "safe s c b"
    then have "b < length (clients s)" "c \<noteq> b" by (auto simp: safe_def)
    note o = wfs_other [OF w c this]
    show "safe ?s' c b \<and> view ?s' b = view s b"
      using b o by (simp add: safe_def view_def Let_def)
  qed
  show "\<exists>s'. on_header f c s = Some s' \<and> wfs s' \<and> length (clients s') = length (clients s) \<and>
          wire s' = wire s \<and> view s' c = (view s c)\<lparr>header := f (header (view s c))\<rparr> \<and>
          (\<forall>b. safe s c b \<longrightarrow> safe s' c b \<and> view s' b = view s b)"
    using w' v fr c d
    by (intro exI [of _ ?s']) (simp add: on_header_def deref_def modify_map_def)
qed

lemma implements_seq:
  assumes "implements f e1" "implements g e2"
  shows "implements (\<lambda>c s. f c s \<bind> g c) (\<lambda>b. e2 (e1 b))"
  unfolding implements_def
proof (intro allI impI)
  fix s c
  assume w: "wfs s" and c: "c < length (clients s)"
  from assms(1) w c obtain s1 where 1: "f c s = Some s1" "wfs s1"
      "length (clients s1) = length (clients s)" "wire s1 = wire s" "view s1 c = e1 (view s c)"
      "\<forall>b. safe s c b \<longrightarrow> safe s1 c b \<and> view s1 b = view s b"
    unfolding implements_def by blast
  from assms(2) 1(2,3) c obtain s2 where 2: "g c s1 = Some s2" "wfs s2"
      "length (clients s2) = length (clients s1)" "wire s2 = wire s1" "view s2 c = e2 (view s1 c)"
      "\<forall>b. safe s1 c b \<longrightarrow> safe s2 c b \<and> view s2 b = view s1 b"
    unfolding implements_def by (metis (no_types))
  show "\<exists>s'. f c s \<bind> g c = Some s' \<and> wfs s' \<and> length (clients s') = length (clients s) \<and>
          wire s' = wire s \<and> view s' c = e2 (e1 (view s c)) \<and>
          (\<forall>b. safe s c b \<longrightarrow> safe s' c b \<and> view s' b = view s b)"
    using 1 2 by (intro exI [of _ s2]) simp
qed

lemma implements_skip: "implements (\<lambda>c s. Some s) (\<lambda>b. b)"
  by (simp add: implements_def)


lemma all_some_update:
  "None \<notin> set (take n a) \<Longrightarrow> None \<notin> set (take n (a[i := Some f]))"
  using set_update_subset_insert [of "take n a" i "Some f"]
  by (auto simp: take_update_swap)

lemma wf_client_array_write:
  assumes "wf_client s y"
  shows "wf_client (s\<lparr>arrays := (arrays s)[r := (arrays s ! r)[i := Some f]]\<rparr>) y"
proof (cases "r < length (arrays s)")
  case True
  with assms show ?thesis
    by (auto simp: wf_client_def nth_list_update all_some_update)
next
  case False
  with assms show ?thesis by (simp add: wf_client_def)
qed

lemma wf_client_array_new:
  assumes "wf_client s y"
  shows "wf_client (s\<lparr>arrays := arrays s @ [a']\<rparr>) y"
  using assms by (simp add: wf_client_def nth_append)

lemma wf_client_map_new:
  assumes "wf_client s y"
  shows "wf_client (s\<lparr>mapobjs := mapobjs s @ ms\<rparr>) y"
  using assms by (auto simp: wf_client_def list_all_iff)

lemma wfs_arrays:
  assumes "wfs s" "\<And>y. wf_client s y \<Longrightarrow> wf_client (s\<lparr>arrays := A\<rparr>) y"
  shows "wfs (s\<lparr>arrays := A\<rparr>)"
  using assms by (auto simp: wfs_def list_all_iff)

lemma implements_push_file:
  "implements (push_file L f) (\<lambda>b. b\<lparr>files := files b @ [Some f]\<rparr>)"
  unfolding implements_def
proof (intro allI impI)
  fix s c
  assume w: "wfs s" and c: "c < length (clients s)"
  define x where "x = clients s ! c"
  define sl where "sl = files x"
  define a where "a = arrays s ! arr sl"
  note d = wfsD [OF w c, folded x_def, folded sl_def, folded a_def]
  have wc: "wf_client s x" using w c by (simp add: wfs_def list_all_length x_def)
  have somes: "None \<notin> set (take (len sl) a)"
    using wc by (simp add: wf_client_def sl_def a_def)
  show "\<exists>s'. push_file L f c s = Some s' \<and> wfs s' \<and> length (clients s') = length (clients s) \<and>
          wire s' = wire s \<and> view s' c = (view s c)\<lparr>files := files (view s c) @ [Some f]\<rparr> \<and>
          (\<forall>b. safe s c b \<longrightarrow> safe s' c b \<and> view s' b = view s b)"
  proof (cases "len sl < length a")
    case True
    define s1 where "s1 = s\<lparr>arrays := (arrays s)[arr sl := a[len sl := Some f]]\<rparr>"
    define x' where "x' = x\<lparr>files := sl\<lparr>len := len sl + 1\<rparr>\<rparr>"
    define s' where "s' = s1\<lparr>clients := (clients s1)[c := x']\<rparr>"
    have run: "push_file L f c s = Some s'"
      using c d True
      by (simp add: push_file_def deref_def append_file_def load_array_def assign_def
          s'_def s1_def x'_def x_def [symmetric] sl_def [symmetric] a_def [symmetric])
    have w1: "wfs s1" unfolding s1_def a_def
      by (rule wfs_arrays [OF w]) (rule wf_client_array_write)
    have "wf_client s1 x" unfolding s1_def a_def by (rule wf_client_array_write [OF wc])
    then have wx': "wf_client s1 x'"
      using True d somes
      by (simp add: wf_client_def x'_def mrefs_def s1_def sl_def [symmetric] a_def [symmetric]
          take_Suc_conv_app_nth)
    have "wfs s'" unfolding s'_def
      by (rule wfs_clients_update [OF w1 _ _ wx'])
        (simp_all add: s1_def c x'_def mrefs_def x_def)
    moreover have "view s' c = (view s c)\<lparr>files := files (view s c) @ [Some f]\<rparr>"
      using c d True
      by (simp add: view_def Let_def resolve_def s'_def s1_def x'_def x_def [symmetric]
          sl_def [symmetric] a_def [symmetric] take_Suc_conv_app_nth)
    moreover have "\<forall>b. safe s c b \<longrightarrow> safe s' c b \<and> view s' b = view s b"
      using c d
      by (auto simp: safe_def view_def Let_def s'_def s1_def x'_def a_def sl_def x_def
          nth_list_update)
    ultimately show ?thesis using run by (intro exI [of _ s']) (simp add: s'_def s1_def)
  next
    case False
    with d have eq: "len sl = length a" by simp
    define n where "n = max (len sl + 1) (growslice L (length a))"
    define a' where "a' = take (len sl) a @ [Some f] @ replicate (n - (len sl + 1)) None"
    define s1 where "s1 = s\<lparr>arrays := arrays s @ [a']\<rparr>"
    define x' where "x' = x\<lparr>files := \<lparr>arr = length (arrays s), len = len sl + 1\<rparr>\<rparr>"
    define s' where "s' = s1\<lparr>clients := (clients s1)[c := x']\<rparr>"
    have run: "push_file L f c s = Some s'"
      using c d False
      by (simp add: push_file_def deref_def append_file_def load_array_def assign_def
          new_array_def Let_def s'_def s1_def x'_def a'_def n_def
          x_def [symmetric] sl_def [symmetric] a_def [symmetric])
    have w1: "wfs s1" unfolding s1_def
      by (rule wfs_arrays [OF w]) (rule wf_client_array_new)
    have "wf_client s1 x" unfolding s1_def by (rule wf_client_array_new [OF wc])
    then have wx': "wf_client s1 x'"
      using somes eq
      by (simp add: wf_client_def x'_def mrefs_def s1_def a'_def n_def)
    have "wfs s'" unfolding s'_def
      by (rule wfs_clients_update [OF w1 _ _ wx'])
        (simp_all add: s1_def c x'_def mrefs_def x_def)
    moreover have "view s' c = (view s c)\<lparr>files := files (view s c) @ [Some f]\<rparr>"
      using c d eq
      by (simp add: view_def Let_def resolve_def s'_def s1_def x'_def a'_def
          x_def [symmetric] sl_def [symmetric] a_def [symmetric] nth_append)
    moreover have "\<forall>b. safe s c b \<longrightarrow> safe s' c b \<and> view s' b = view s b"
    proof (intro allI impI)
      fix b assume b: "safe s c b"
      then have bl: "b < length (clients s)" by (simp add: safe_def)
      have "arr (files (clients s ! b)) < length (arrays s)" by (rule wfsD(4) [OF w bl])
      then show "safe s' c b \<and> view s' b = view s b"
        using b c
        by (auto simp: safe_def view_def Let_def s'_def s1_def x'_def nth_append)
    qed
    ultimately show ?thesis using run by (intro exI [of _ s']) (simp add: s'_def s1_def)
  qed
qed


lemma wfs_refs_bound:
  assumes "wfs s" "r \<in> set (concat (map mrefs (clients s)))"
  shows "r < length (mapobjs s)"
  using assms by (auto simp: wfs_def wf_client_def list_all_iff)

lemma Clone_ok:
  assumes w: "wfs s" and c: "c < length (clients s)"
  shows "\<exists>s'. Clone c s = Some (length (clients s), s') \<and> wfs s' \<and>
           length (clients s') = Suc (length (clients s)) \<and> wire s' = wire s \<and>
           arrays s' = arrays s \<and>
           view s' (length (clients s)) = view s c \<and>
           files (clients s' ! length (clients s)) = files (clients s ! c) \<and>
           (\<forall>b < length (clients s). clients s' ! b = clients s ! b \<and> view s' b = view s b)"
proof -
  define x where "x = clients s ! c"
  define n where "n = length (mapobjs s)"
  define x' where "x' = x\<lparr>query := n, header := Suc n, form := Suc (Suc n)\<rparr>"
  define s' where "s' = s\<lparr>mapobjs := mapobjs s @ [mapobjs s ! query x, mapobjs s ! header x,
                            mapobjs s ! form x],
                          clients := clients s @ [x']\<rparr>"
  note d = wfsD [OF w c, folded x_def]
  have dist: "\<And>r. r < length (mapobjs s) \<Longrightarrow> distinct (map fst (mapobjs s ! r))"
    using w by (simp add: wfs_def list_all_length)
  have run: "Clone c s = Some (length (clients s), s')"
    using c d dist
    by (simp add: Clone_def deref_def copyMap_def load_map_def new_map_def new_client_def
        copy_entries_id nth_append s'_def x'_def n_def x_def [symmetric])
  have wc: "wf_client s x" using w c by (simp add: wfs_def list_all_length x_def)
  have "list_all (wf_client s') (clients s)"
    using w by (auto simp: wfs_def list_all_iff s'_def intro: wf_client_map_new)
  moreover have "wf_client s' x'"
    using wc by (simp add: wf_client_def s'_def x'_def mrefs_def n_def)
  moreover have "list_all (\<lambda>m. distinct (map fst m)) (mapobjs s')"
    using w d dist by (simp add: wfs_def s'_def)
  moreover have "distinct (concat (map mrefs (clients s')))"
  proof -
    have "\<forall>r \<in> set (concat (map mrefs (clients s))). r < n"
      using wfs_refs_bound [OF w] unfolding n_def by blast
    then have "set (concat (map mrefs (clients s))) \<inter> {n, Suc n, Suc (Suc n)} = {}"
      by fastforce
    moreover have "mrefs x' = [n, Suc (Suc n), Suc n]" by (simp add: mrefs_def x'_def)
    ultimately show ?thesis using w by (simp add: wfs_def s'_def)
  qed
  ultimately have w': "wfs s'" by (simp add: wfs_def s'_def)
  have v: "view s' (length (clients s)) = view s c"
    using d by (simp add: view_def Let_def resolve_def s'_def x'_def n_def nth_append
        x_def [symmetric])
  have fr: "\<forall>b < length (clients s). clients s' ! b = clients s ! b \<and> view s' b = view s b"
  proof (intro allI impI)
    fix b assume b: "b < length (clients s)"
    note wfsD [OF w b]
    then show "clients s' ! b = clients s ! b \<and> view s' b = view s b"
      using b by (simp add: view_def Let_def s'_def nth_append)
  qed
  show ?thesis
    using run w' v fr
    by (intro exI [of _ s']) (simp add: s'_def x'_def x_def)
qed

lemma chained_ok:
  assumes i: "implements f e" and w: "wfs s" and c: "c < length (clients s)"
  shows "\<exists>c' s'. chained f c s = Some (c', s') \<and> wfs s' \<and> c' < length (clients s') \<and>
           wire s' = wire s \<and> view s' c' = e (view s c) \<and>
           (if makeCopy (clients s ! c)
            then c' = length (clients s) \<and> length (clients s') = Suc (length (clients s))
            else c' = c \<and> length (clients s') = length (clients s)) \<and>
           (\<forall>b < length (clients s).
              (if b = c then makeCopy (clients s ! c)
               else arr (files (clients s ! b)) = arr (files (clients s ! c)) \<longrightarrow>
                    len (files (clients s ! b)) \<le> len (files (clients s ! c))) \<longrightarrow>
              view s' b = view s b)"
proof (cases "makeCopy (clients s ! c)")
  case True
  from Clone_ok [OF w c] obtain s1 where 1: "Clone c s = Some (length (clients s), s1)"
      "wfs s1" "length (clients s1) = Suc (length (clients s))" "wire s1 = wire s"
      "view s1 (length (clients s)) = view s c"
      "files (clients s1 ! length (clients s)) = files (clients s ! c)"
      "\<forall>b < length (clients s). clients s1 ! b = clients s ! b \<and> view s1 b = view s b"
    by blast
  let ?c = "length (clients s)"
  have c1: "?c < length (clients s1)" using 1(3) by simp
  from i 1(2) c1 obtain s' where 2: "f ?c s1 = Some s'" "wfs s'"
      "length (clients s') = length (clients s1)" "wire s' = wire s1"
      "view s' ?c = e (view s1 ?c)"
      "\<forall>b. safe s1 ?c b \<longrightarrow> safe s' ?c b \<and> view s' b = view s1 b"
    unfolding implements_def by (metis (no_types))
  have fr: "\<forall>b < length (clients s).
              (if b = c then makeCopy (clients s ! c)
               else arr (files (clients s ! b)) = arr (files (clients s ! c)) \<longrightarrow>
                    len (files (clients s ! b)) \<le> len (files (clients s ! c))) \<longrightarrow>
              view s' b = view s b"
  proof (intro allI impI)
    fix b assume b: "b < length (clients s)"
      and h: "if b = c then makeCopy (clients s ! c)
               else arr (files (clients s ! b)) = arr (files (clients s ! c)) \<longrightarrow>
                    len (files (clients s ! b)) \<le> len (files (clients s ! c))"
    have "safe s1 ?c b"
      using b h 1(3,6,7) c by (auto simp: safe_def split: if_splits)
    then show "view s' b = view s b" using 2(6) 1(7) b by simp
  qed
  show ?thesis
    using True c 1 2 fr
    by (intro exI [of _ ?c] exI [of _ s']) (simp add: chained_def receiver_def deref_def)
next
  case False
  from i w c obtain s' where 2: "f c s = Some s'" "wfs s'"
      "length (clients s') = length (clients s)" "wire s' = wire s"
      "view s' c = e (view s c)"
      "\<forall>b. safe s c b \<longrightarrow> safe s' c b \<and> view s' b = view s b"
    unfolding implements_def by (metis (no_types))
  have fr: "\<forall>b < length (clients s).
              (if b = c then makeCopy (clients s ! c)
               else arr (files (clients s ! b)) = arr (files (clients s ! c)) \<longrightarrow>
                    len (files (clients s ! b)) \<le> len (files (clients s ! c))) \<longrightarrow>
              view s' b = view s b"
    using 2(6) False by (auto simp: safe_def)
  show ?thesis
    using False c 2 fr
    by (intro exI [of _ c] exI [of _ s']) (simp add: chained_def receiver_def deref_def)
qed

section \<open>The mutators\<close>

lemma observe_view:
  assumes "wfs s" "c < length (clients s)"
  shows "observe s c = Some (view s c)"
  using wfsD [OF assms] assms(2)
  by (simp add: observe_def view_def deref_def load_map_def elements_def load_array_def Let_def)

lemma observe_valid: "observe s c = Some b \<Longrightarrow> c < length (clients s)"
  by (simp add: observe_def deref_def split: if_splits)

lemma observe_eq_view: "wfs s \<Longrightarrow> observe s c = Some b \<Longrightarrow> view s c = b"
  using observe_view [of s c] observe_valid [of s c b] by simp

lemma keeps_Values_Add: "keeps (Values_Add k v)"
  by (simp add: keeps_def Values_Add_def distinct_update)

lemma keeps_Header_Add: "keeps (Header_Add L k v)"
  by (simp add: keeps_def Header_Add_def Values_Add_def distinct_update)

lemma keeps_Header_Set: "keeps (Header_Set L k v)"
  by (simp add: keeps_def Header_Set_def distinct_update)

lemma keeps_Header_Del: "keeps (Header_Del L k)"
  by (simp add: keeps_def Header_Del_def distinct_delete)

lemma scalar_url: "scalar (\<lambda>x. x\<lparr>url := t\<rparr>) (\<lambda>b. b\<lparr>url := t\<rparr>)"
  by (simp add: scalar_def resolve_def mrefs_def)

lemma scalar_path: "scalar (\<lambda>x. x\<lparr>path := path x @ t\<rparr>) (\<lambda>b. b\<lparr>path := path b @ t\<rparr>)"
  by (simp add: scalar_def resolve_def mrefs_def)

lemma scalar_meth: "scalar (\<lambda>x. x\<lparr>meth := t\<rparr>) (\<lambda>b. b\<lparr>meth := t\<rparr>)"
  by (simp add: scalar_def resolve_def mrefs_def)

lemma scalar_body: "scalar (\<lambda>x. x\<lparr>body := t\<rparr>) (\<lambda>b. b\<lparr>body := t\<rparr>)"
  by (simp add: scalar_def resolve_def mrefs_def)


lemma scalar_user:
  "scalar (\<lambda>x. x\<lparr>basicAuth := (u, snd (basicAuth x))\<rparr>) (\<lambda>b. b\<lparr>basicAuth := (u, snd (basicAuth b))\<rparr>)"
  by (simp add: scalar_def resolve_def mrefs_def)

lemma scalar_password:
  "scalar (\<lambda>x. x\<lparr>basicAuth := (fst (basicAuth x), p)\<rparr>) (\<lambda>b. b\<lparr>basicAuth := (fst (basicAuth b), p)\<rparr>)"
  by (simp add: scalar_def resolve_def mrefs_def)

lemma implements_cong: "implements f e \<Longrightarrow> e = e' \<Longrightarrow> implements f e'"
  by simp

lemma via:
  assumes "implements f e" "invoke L m = chained f" "\<And>b. e b = effect L m b"
  shows "\<exists>f. invoke L m = chained f \<and> implements f (effect L m)"
proof -
  from assms(3) have "e = effect L m" by (rule ext)
  with assms(1,2) show ?thesis by blast
qed

lemma invoke_implements: "\<exists>f. invoke L m = chained f \<and> implements f (effect L m)"
proof (cases m)
  case (CSetURL u)
  show ?thesis
    by (rule via [OF implements_assign [OF scalar_url]]) (simp_all add: CSetURL SetURL_def)
next
  case (CAppendPath p)
  show ?thesis
  proof (cases "p = []")
    case True
    show ?thesis
      by (rule via [OF implements_skip]) (simp_all add: CAppendPath AppendPath_def True)
  next
    case False
    show ?thesis
      by (rule via [OF implements_assign [OF scalar_path]])
         (simp_all add: CAppendPath AppendPath_def False Let_def)
  qed
next
  case (CAddQuery k v)
  show ?thesis
    by (rule via [OF implements_on_query [OF keeps_Values_Add]])
       (simp_all add: CAddQuery AddQuery_def)
next
  case (CAddHeader k v)
  show ?thesis
    by (rule via [OF implements_on_header [OF keeps_Header_Add]])
       (simp_all add: CAddHeader AddHeader_def)
next
  case (CAddFormField k v)
  show ?thesis
    by (rule via [OF implements_seq
          [OF implements_on_form [OF keeps_Values_Add] implements_assign [OF scalar_meth]]])
       (simp_all add: CAddFormField AddFormField_def)
next
  case (CAddFile k fn ct)
  show ?thesis
    by (rule via [OF implements_seq
          [OF implements_push_file implements_assign [OF scalar_meth]]])
       (simp_all add: CAddFile AddFile_def)
next
  case (CSetBasicAuth u p)
  show ?thesis
    by (rule via [OF implements_seq
          [OF implements_assign [OF scalar_user] implements_assign [OF scalar_password]]])
       (simp_all add: CSetBasicAuth SetBasicAuth_def)
next
  case (CSetJSONBody j)
  show ?thesis
    by (rule via [OF implements_seq
          [OF implements_assign [OF scalar_body]
              implements_seq [OF implements_on_header [OF keeps_Header_Set]
                implements_assign [OF scalar_meth]]]])
       (simp_all add: CSetJSONBody SetJSONBody_def)
next
  case (CSetRawBody r)
  show ?thesis
    by (rule via [OF implements_seq
          [OF implements_assign [OF scalar_body]
              implements_seq [OF implements_assign [OF scalar_meth]
                implements_on_header [OF keeps_Header_Del]]]])
       (simp_all add: CSetRawBody SetRawBody_def)
next
  case CGet
  show ?thesis
    by (rule via [OF implements_assign [OF scalar_meth]]) (simp_all add: CGet Get_def)
next
  case CPost
  show ?thesis
    by (rule via [OF implements_assign [OF scalar_meth]]) (simp_all add: CPost Post_def)
qed


lemma view_makeCopy [simp]: "makeCopy (view s c) = makeCopy (clients s ! c)"
  by (simp add: view_def resolve_def Let_def)

lemma New_ok:
  assumes "wfs s"
  shows "wfs (snd (New s))" and "fst (New s) = length (clients s)"
    and "observe (snd (New s)) (length (clients s)) = Some fresh"
proof -
  define n where "n = length (mapobjs s)"
  define s' where "s' = snd (New s)"
  have s': "s' = s\<lparr>mapobjs := mapobjs s @ [[], [], []], arrays := arrays s @ [[]],
       clients := clients s @ [\<lparr>query = n, form = Suc n, files = \<lparr>arr = length (arrays s), len = 0\<rparr>,
          url = [], path = [], body = None, meth = ''GET'', header = Suc (Suc n),
          basicAuth = ([], []), makeCopy = True\<rparr>]\<rparr>"
    by (simp add: s'_def New_def new_map_def new_array_def new_client_def n_def)
  have "\<forall>r \<in> set (concat (map mrefs (clients s))). r < n"
    using wfs_refs_bound [OF assms] unfolding n_def by blast
  then have "set (concat (map mrefs (clients s))) \<inter> {n, Suc n, Suc (Suc n)} = {}"
    by fastforce
  moreover have "list_all (wf_client s') (clients s)"
    using assms wf_client_map_new [of s _ "[[], [], []]"]
    by (auto simp: wfs_def list_all_iff s' wf_client_def nth_append)
  ultimately show "wfs (snd (New s))"
    using assms unfolding s'_def [symmetric]
    by (simp add: wfs_def s' wf_client_def mrefs_def n_def)
  show "fst (New s) = length (clients s)"
    by (simp add: New_def new_map_def new_array_def new_client_def)
  show "observe (snd (New s)) (length (clients s)) = Some fresh"
    unfolding s'_def [symmetric]
    by (simp add: s' observe_def deref_def load_map_def elements_def load_array_def
        resolve_def fresh_def n_def nth_append)
qed

section \<open>Copy on write: claim C1\<close>

text \<open>
  C1. Every mutator, run on a builder \<open>c\<close> that shows \<open>b\<close>, returns a builder that
  shows \<open>b\<close> with the mutator's effect. When the auto-clone flag of \<open>b\<close> is true the
  returned builder is another one and \<open>c\<close> still shows \<open>b\<close>: its query, header,
  form, files and body (and every other field) are unchanged. When the flag is false
  the returned pointer is the receiver itself, no builder is allocated, and the
  effect is seen through \<open>c\<close>.
\<close>

theorem C1_copy_on_write:
  assumes "wfs s" and "observe s c = Some b"
  shows "\<exists>c' s'. invoke L m c s = Some (c', s') \<and> wfs s' \<and>
           observe s' c' = Some (effect L m b) \<and>
           (if makeCopy b then c' \<noteq> c \<and> observe s' c = Some b
            else c' = c \<and> length (clients s') = length (clients s))"
proof -
  have c: "c < length (clients s)" by (rule observe_valid [OF assms(2)])
  have v: "view s c = b" by (rule observe_eq_view [OF assms])
  obtain f where f: "invoke L m = chained f" "implements f (effect L m)"
    using invoke_implements by blast
  from chained_ok [OF f(2) assms(1) c] obtain c' s' where r:
      "chained f c s = Some (c', s')" "wfs s'" "c' < length (clients s')"
      "view s' c' = effect L m (view s c)"
      "if makeCopy (clients s ! c)
       then c' = length (clients s) \<and> length (clients s') = Suc (length (clients s))
       else c' = c \<and> length (clients s') = length (clients s)"
      "\<forall>b < length (clients s).
          (if b = c then makeCopy (clients s ! c)
           else arr (files (clients s ! b)) = arr (files (clients s ! c)) \<longrightarrow>
                len (files (clients s ! b)) \<le> len (files (clients s ! c))) \<longrightarrow>
          view s' b = view s b"
    by blast
  have m: "makeCopy b = makeCopy (clients s ! c)" using v by (simp flip: view_makeCopy)
  have 1: "observe s' c' = Some (effect L m b)"
    using observe_view [OF r(2,3)] r(4) v by simp
  have 2: "makeCopy b \<Longrightarrow> c' \<noteq> c \<and> observe s' c = Some b"
  proof -
    assume mc: "makeCopy b"
    with r(5) m c have *: "c' \<noteq> c" "c < length (clients s')" by auto
    from r(6) c mc m have "view s' c = view s c" by simp
    with observe_view [OF r(2) *(2)] v * show ?thesis by simp
  qed
  show ?thesis
    using r(1,2,5) 1 2 m f(1) by (intro exI [of _ c'] exI [of _ s']) auto
qed

theorem C1_copy_on_write_witness:
  "wfs (snd (New empty_state)) \<and> observe (snd (New empty_state)) 0 = Some fresh \<and>
   (\<exists>c' s'. invoke sample_lib (CAddQuery ''q'' ''1'') 0 (snd (New empty_state)) = Some (c', s') \<and>
      wfs s' \<and> observe s' c' = Some (effect sample_lib (CAddQuery ''q'' ''1'') fresh) \<and>
      (if makeCopy fresh then c' \<noteq> 0 \<and> observe s' 0 = Some fresh
       else c' = 0 \<and> length (clients s') = length (clients (snd (New empty_state)))))"
proof -
  have w: "wfs (snd (New empty_state))" by (rule New_ok(1) [OF wfs_empty])
  have o: "observe (snd (New empty_state)) 0 = Some fresh"
    using New_ok(3) [OF wfs_empty] by (simp add: empty_state_def)
  show ?thesis
    using w o C1_copy_on_write [OF w o, of sample_lib "CAddQuery ''q'' ''1''"] by simp
qed

section \<open>AutoClone: claim C2\<close>

lemmas store_defs = deref_def load_map_def load_array_def new_client_def new_map_def
  new_array_def assign_def modify_map_def copyMap_def copy_entries_def elements_def

lemma off_state_reached: "AutoClone False 0 (snd (New empty_state)) = Some (1, off_state)"
  by (simp add: AutoClone_def Clone_def New_def empty_state_def off_state_def store_defs)





section \<open>Chains of calls\<close>

lemma invoke_observe:
  assumes "wfs s" and "observe s c = Some b"
  shows "\<exists>c' s'. invoke L m c s = Some (c', s') \<and> wfs s' \<and> wire s' = wire s \<and>
           observe s' c' = Some (effect L m b)"
proof -
  have c: "c < length (clients s)" by (rule observe_valid [OF assms(2)])
  have v: "view s c = b" by (rule observe_eq_view [OF assms])
  obtain f where f: "invoke L m = chained f" "implements f (effect L m)"
    using invoke_implements by blast
  from chained_ok [OF f(2) assms(1) c] obtain c' s' where r:
      "chained f c s = Some (c', s')" "wfs s'" "c' < length (clients s')" "wire s' = wire s"
      "view s' c' = effect L m (view s c)"
    by blast
  show ?thesis
    using r f(1) v observe_view [OF r(2,3)] by (intro exI [of _ c'] exI [of _ s']) simp
qed

lemma invoke_all_observe:
  assumes "wfs s" and "observe s c = Some b"
  shows "\<exists>c' s'. invoke_all L ms c s = Some (c', s') \<and> wfs s' \<and> wire s' = wire s \<and>
           observe s' c' = Some (foldl (\<lambda>b m. effect L m b) b ms)"
  using assms
proof (induction ms arbitrary: c s b)
  case Nil
  then show ?case by simp
next
  case (Cons m ms)
  from invoke_observe [OF Cons.prems, of L m] obtain c1 s1 where 1:
      "invoke L m c s = Some (c1, s1)" "wfs s1" "wire s1 = wire s"
      "observe s1 c1 = Some (effect L m b)"
    by blast
  from Cons.IH [OF 1(2,4)] obtain c' s' where 2:
      "invoke_all L ms c1 s1 = Some (c', s')" "wfs s'" "wire s' = wire s1"
      "observe s' c' = Some (foldl (\<lambda>b m. effect L m b) (effect L m b) ms)"
    by blast
  show ?case using 1 2 by (intro exI [of _ c'] exI [of _ s']) simp
qed

lemma TrimRight_prefix: "\<exists>t. s = TrimRight s cs @ t"
proof -
  let ?P = "\<lambda>x. x \<in> set cs"
  have "rev (takeWhile ?P (rev s) @ dropWhile ?P (rev s)) = s"
    by (simp only: takeWhile_dropWhile_id rev_rev_ident)
  then have "s = TrimRight s cs @ rev (takeWhile ?P (rev s))"
    by (simp only: rev_append TrimRight_def)
  then show ?thesis ..
qed

lemma TrimRight_hd: "TrimRight s cs \<noteq> [] \<Longrightarrow> hd (TrimRight s cs) = hd s"
  using TrimRight_prefix [of s cs] by (metis hd_append2)

lemma TrimRight_last: "TrimRight s cs \<noteq> [] \<Longrightarrow> last (TrimRight s cs) \<notin> set cs"
proof -
  assume n: "TrimRight s cs \<noteq> []"
  then have d: "dropWhile (\<lambda>x. x \<in> set cs) (rev s) \<noteq> []" by (simp add: TrimRight_def)
  then have "hd (dropWhile (\<lambda>x. x \<in> set cs) (rev s)) \<notin> set cs" by (rule hd_dropWhile)
  with d show ?thesis by (simp add: TrimRight_def last_rev)
qed

lemma new_state:
  "wfs (snd (New empty_state))" "observe (snd (New empty_state)) 0 = Some fresh"
  using New_ok(1,3) [OF wfs_empty] by (simp_all add: empty_state_def)

section \<open>Body and content type: claim C6\<close>

text \<open>
  C6. On every builder and for all payloads \<open>j\<close> and \<open>r\<close> (nil included),
  \<^verbatim>\<open>SetJSONBody(j)\<close> returns a builder whose body is \<open>j\<close>, whose \<^verbatim>\<open>Content-Type\<close> header
  is exactly \<^verbatim>\<open>application/json\<close> and whose method is \<^verbatim>\<open>POST\<close>; \<^verbatim>\<open>SetRawBody(r)\<close> on
  that builder returns one whose body is \<open>r\<close>, which has no \<^verbatim>\<open>Content-Type\<close> entry at
  all and whose method is \<^verbatim>\<open>POST\<close>. The same holds for \<^verbatim>\<open>SetRawBody(r)\<close> on any
  builder, whatever was called before: after it the body is \<open>r\<close> and there is no
  \<^verbatim>\<open>Content-Type\<close>.
\<close>

theorem C6_content_type_exclusive:
  assumes "wfs s" and "observe s c = Some b"
  shows "(\<exists>c1 s1 b1 c2 s2 b2.
            SetJSONBody L j c s = Some (c1, s1) \<and> observe s1 c1 = Some b1 \<and>
            body b1 = j \<and>
            map_of (header b1) (CanonicalMIMEHeaderKey L ''Content-Type'')
              = Some [''application/json''] \<and>
            meth b1 = ''POST'' \<and>
            SetRawBody L r c1 s1 = Some (c2, s2) \<and> observe s2 c2 = Some b2 \<and>
            body b2 = r \<and>
            map_of (header b2) (CanonicalMIMEHeaderKey L ''Content-Type'') = None \<and>
            meth b2 = ''POST'')
       \<and> (\<exists>c' s' b'. SetRawBody L r c s = Some (c', s') \<and> observe s' c' = Some b' \<and>
            body b' = r \<and>
            map_of (header b') (CanonicalMIMEHeaderKey L ''Content-Type'') = None \<and>
            meth b' = ''POST'')"
proof -
  from invoke_observe [OF assms, of L "CSetJSONBody j"] obtain c1 s1 where 1:
      "SetJSONBody L j c s = Some (c1, s1)" "wfs s1"
      "observe s1 c1 = Some (effect L (CSetJSONBody j) b)"
    by auto
  from invoke_observe [OF 1(2,3), of L "CSetRawBody r"] obtain c2 s2 where 2:
      "SetRawBody L r c1 s1 = Some (c2, s2)"
      "observe s2 c2 = Some (effect L (CSetRawBody r) (effect L (CSetJSONBody j) b))"
    by auto
  from invoke_observe [OF assms, of L "CSetRawBody r"] obtain c' s' where 3:
      "SetRawBody L r c s = Some (c', s')" "observe s' c' = Some (effect L (CSetRawBody r) b)"
    by auto
  have "\<exists>c1 s1 b1 c2 s2 b2.
            SetJSONBody L j c s = Some (c1, s1) \<and> observe s1 c1 = Some b1 \<and>
            body b1 = j \<and>
            map_of (header b1) (CanonicalMIMEHeaderKey L ''Content-Type'')
              = Some [''application/json''] \<and>
            meth b1 = ''POST'' \<and>
            SetRawBody L r c1 s1 = Some (c2, s2) \<and> observe s2 c2 = Some b2 \<and>
            body b2 = r \<and>
            map_of (header b2) (CanonicalMIMEHeaderKey L ''Content-Type'') = None \<and>
            meth b2 = ''POST''"
    using 1(1,3) 2
    by (intro exI [of _ c1] exI [of _ s1] exI [of _ "effect L (CSetJSONBody j) b"]
          exI [of _ c2] exI [of _ s2]
          exI [of _ "effect L (CSetRawBody r) (effect L (CSetJSONBody j) b)"])
       (simp add: Header_Set_def Header_Del_def update_conv' delete_conv')
  moreover have "\<exists>c' s' b'. SetRawBody L r c s = Some (c', s') \<and> observe s' c' = Some b' \<and>
            body b' = r \<and>
            map_of (header b') (CanonicalMIMEHeaderKey L ''Content-Type'') = None \<and>
            meth b' = ''POST''"
    using 3
    by (intro exI [of _ c'] exI [of _ s'] exI [of _ "effect L (CSetRawBody r) b"])
       (simp add: Header_Del_def delete_conv')
  ultimately show ?thesis by (rule conjI)
qed

theorem C6_content_type_exclusive_witness:
  "wfs (snd (New empty_state)) \<and> observe (snd (New empty_state)) 0 = Some fresh \<and>
   (\<exists>c1 s1 b1 c2 s2 b2.
      SetJSONBody sample_lib (Some ''{}'') 0 (snd (New empty_state)) = Some (c1, s1) \<and>
      observe s1 c1 = Some b1 \<and> body b1 = Some ''{}'' \<and>
      map_of (header b1) ''Content-Type'' = Some [''application/json''] \<and>
      meth b1 = ''POST'' \<and>
      SetRawBody sample_lib (Some ''raw body'') c1 s1 = Some (c2, s2) \<and>
      observe s2 c2 = Some b2 \<and> body b2 = Some ''raw body'' \<and>
      map_of (header b2) ''Content-Type'' = None \<and> meth b2 = ''POST'')"
  using new_state
    C6_content_type_exclusive [OF new_state, of sample_lib "Some ''{}''" "Some ''raw body''"]
  by (simp add: sample_lib_def)

section \<open>Joining paths: claim C7\<close>

text \<open>
  C7. \<^verbatim>\<open>SetURL\<close> stores the base URL without its trailing slashes. \<^verbatim>\<open>AppendPath\<close> of
  the empty string returns a builder that shows what the receiver showed. On another
  string it appends to the path the segment obtained by putting a slash in front
  unless there is one already, and stripping the trailing slashes: the segment is
  empty or starts with a slash and does not end with one. The chain of the test,
  base \<^verbatim>\<open>https://a.com/\<close> and segments \<^verbatim>\<open>p1\<close>, \<^verbatim>\<open>/p2\<close>, empty, \<^verbatim>\<open>/p3/\<close>, \<^verbatim>\<open>/p4/\<close> on a
  new builder, yields the target \<^verbatim>\<open>https://a.com/p1/p2/p3/p4\<close>.
\<close>

theorem C7_path_joining:
  assumes "wfs s" and "observe s c = Some b"
  shows "(\<exists>c' s' b'. SetURL u c s = Some (c', s') \<and> observe s' c' = Some b' \<and>
            url b' = TrimRight u ''/'' \<and> (url b' = [] \<or> last (url b') \<noteq> CHR ''/''))
       \<and> (\<exists>c' s'. AppendPath [] c s = Some (c', s') \<and> observe s' c' = Some b)
       \<and> (p \<noteq> [] \<longrightarrow>
            (\<exists>c' s' b' seg. AppendPath p c s = Some (c', s') \<and> observe s' c' = Some b' \<and>
               seg = TrimRight (if hd p = CHR ''/'' then p else ''/'' @ p) ''/'' \<and>
               path b' = path b @ seg \<and>
               (seg = [] \<or> hd seg = CHR ''/'' \<and> last seg \<noteq> CHR ''/'')))
       \<and> (\<exists>c' s' b'.
            invoke_all L [CSetURL ''https://a.com/'', CAppendPath ''p1'', CAppendPath ''/p2'',
                          CAppendPath [], CAppendPath ''/p3/'', CAppendPath ''/p4/'']
              (fst (New s)) (snd (New s)) = Some (c', s') \<and>
            observe s' c' = Some b' \<and> url b' @ path b' = ''https://a.com/p1/p2/p3/p4'')"
proof (intro conjI impI)
  from invoke_observe [OF assms, of L "CSetURL u"] obtain c' s' where 1:
      "SetURL u c s = Some (c', s')" "observe s' c' = Some (effect L (CSetURL u) b)"
    by auto
  have "TrimRight u ''/'' = [] \<or> last (TrimRight u ''/'') \<noteq> CHR ''/''"
    using TrimRight_last [of u "''/''"] by auto
  with 1 show "\<exists>c' s' b'. SetURL u c s = Some (c', s') \<and> observe s' c' = Some b' \<and>
            url b' = TrimRight u ''/'' \<and> (url b' = [] \<or> last (url b') \<noteq> CHR ''/'')"
    by (intro exI [of _ c'] exI [of _ s'] exI [of _ "effect L (CSetURL u) b"]) simp
next
  from invoke_observe [OF assms, of L "CAppendPath []"]
  show "\<exists>c' s'. AppendPath [] c s = Some (c', s') \<and> observe s' c' = Some b"
    by auto
next
  assume p: "p \<noteq> []"
  define seg where "seg = TrimRight (if hd p = CHR ''/'' then p else ''/'' @ p) ''/''"
  from invoke_observe [OF assms, of L "CAppendPath p"] obtain c' s' where 1:
      "AppendPath p c s = Some (c', s')" "observe s' c' = Some (effect L (CAppendPath p) b)"
    by auto
  have "seg = [] \<or> hd seg = CHR ''/'' \<and> last seg \<noteq> CHR ''/''"
    using TrimRight_last [of "if hd p = CHR ''/'' then p else ''/'' @ p" "''/''"]
      TrimRight_hd [of "if hd p = CHR ''/'' then p else ''/'' @ p" "''/''"]
    by (auto simp: seg_def split: if_splits)
  moreover have "path (effect L (CAppendPath p) b) = path b @ seg"
    using p by (auto simp: seg_def)
  ultimately show "\<exists>c' s' b' seg. AppendPath p c s = Some (c', s') \<and> observe s' c' = Some b' \<and>
               seg = TrimRight (if hd p = CHR ''/'' then p else ''/'' @ p) ''/'' \<and>
               path b' = path b @ seg \<and>
               (seg = [] \<or> hd seg = CHR ''/'' \<and> last seg \<noteq> CHR ''/'')"
    using 1
    by (intro exI [of _ c'] exI [of _ s'] exI [of _ "effect L (CAppendPath p) b"]
          exI [of _ seg]) (simp add: seg_def)
next
  let ?ms = "[CSetURL ''https://a.com/'', CAppendPath ''p1'', CAppendPath ''/p2'',
              CAppendPath [], CAppendPath ''/p3/'', CAppendPath ''/p4/'']"
  have o: "observe (snd (New s)) (fst (New s)) = Some fresh"
    using New_ok(2,3) [OF assms(1)] by simp
  from invoke_all_observe [OF New_ok(1) [OF assms(1)] o, of L ?ms] obtain c' s' where 1:
      "invoke_all L ?ms (fst (New s)) (snd (New s)) = Some (c', s')"
      "observe s' c' = Some (foldl (\<lambda>b m. effect L m b) fresh ?ms)"
    by blast
  have "url (foldl (\<lambda>b m. effect L m b) fresh ?ms) @ path (foldl (\<lambda>b m. effect L m b) fresh ?ms)
          = ''https://a.com/p1/p2/p3/p4''"
    by (simp add: fresh_def TrimRight_def)
  with 1 show "\<exists>c' s' b'. invoke_all L ?ms (fst (New s)) (snd (New s)) = Some (c', s') \<and>
            observe s' c' = Some b' \<and> url b' @ path b' = ''https://a.com/p1/p2/p3/p4''"
    by blast
qed

theorem C7_path_joining_witness:
  "wfs (snd (New empty_state)) \<and> observe (snd (New empty_state)) 0 = Some fresh \<and>
   (\<exists>c' s' b'. SetURL ''https://a.com/'' 0 (snd (New empty_state)) = Some (c', s') \<and>
      observe s' c' = Some b' \<and> url b' = ''https://a.com'') \<and>
   ''/p3/'' \<noteq> [] \<and>
   (\<exists>c' s' b'. AppendPath ''/p3/'' 0 (snd (New empty_state)) = Some (c', s') \<and>
      observe s' c' = Some b' \<and> path b' = ''/p3'')"
proof -
  have t: "TrimRight ''https://a.com/'' ''/'' = ''https://a.com''" "TrimRight ''/p3/'' ''/'' = ''/p3''"
    by (simp_all add: TrimRight_def)
  show ?thesis
    using new_state
      C7_path_joining [OF new_state, of "''https://a.com/''" "''/p3/''" sample_lib]
    by (auto simp: t fresh_def)
qed

section \<open>Materialization\<close>

lemma write_files_total: "None \<notin> set fs \<Longrightarrow> write_files L w fs \<noteq> None"
proof (induction fs arbitrary: w)
  case Nil
  then show ?case by simp
next
  case (Cons f fs)
  then obtain ff where "f = Some ff" by (cases f) auto
  with Cons show ?case by (auto split: sum.splits)
qed

lemma write_multipart_total: "None \<notin> set fs \<Longrightarrow> write_multipart L fs fm \<noteq> None"
  using write_files_total [of fs L "[]"]
  by (auto simp: write_multipart_def split: option.splits sum.splits)

lemma keeps_stamped: "distinct (map fst (header b)) \<Longrightarrow> distinct (map fst (stamped L b))"
  by (simp add: stamped_def Let_def Header_Set_def distinct_update)

lemma keeps_materialize:
  "distinct (map fst (header b)) \<Longrightarrow> distinct (map fst (snd (materialize L hdr b)))"
  by (auto simp: materialize_def chosen_body_def keeps_stamped Header_Set_def distinct_update
      split: sum.splits option.splits prod.splits if_splits)

lemma ParseRequest_run:
  assumes w: "wfs s" and o: "observe s c = Some b"
  shows "ParseRequest L c s =
           Some (fst (materialize L (header (clients s ! c)) b),
                 s\<lparr>mapobjs := (mapobjs s)[header (clients s ! c) :=
                                  snd (materialize L (header (clients s ! c)) b)]\<rparr>)"
proof -
  have c: "c < length (clients s)" by (rule observe_valid [OF o])
  have v: "view s c = b" by (rule observe_eq_view [OF w o])
  define x where "x = clients s ! c"
  define h where "h = header x"
  note d = wfsD [OF w c, folded x_def, folded h_def]
  have wc: "wf_client s x" using w c by (simp add: wfs_def list_all_length x_def)
  have e1: "deref s c = Some x" using c by (simp add: deref_def x_def)
  have e2: "mapobjs s ! h = header b" "mapobjs s ! query x = query b"
      "mapobjs s ! form x = form b"
    using v by (auto simp: view_def Let_def resolve_def x_def h_def)
  have e3: "url x = url b" "path x = path b" "body x = body b" "meth x = meth b"
      "basicAuth x = basicAuth b"
    using v by (auto simp: view_def Let_def resolve_def x_def)
  have fb: "take (len (files x)) (arrays s ! arr (files x)) = files b"
    using v by (auto simp: view_def Let_def resolve_def x_def)
  have "length (take (len (files x)) (arrays s ! arr (files x))) = length (files b)"
    by (simp only: fb)
  then have e4: "len (files x) = length (files b)" using d(5) by simp
  have nn: "None \<notin> set (files b)" using wc fb by (simp add: wf_client_def)
  have el: "elements (s\<lparr>mapobjs := M\<rparr>) (files x) = Some (files b)" for M
    using d fb by (simp add: elements_def load_array_def)
  from write_multipart_total [OF nn, of L "form b"] obtain r where
    r: "write_multipart L (files b) (form b) = Some r" by auto
  show ?thesis
    unfolding x_def [symmetric] h_def [symmetric]
    using d
    by (cases "Parse L (url b @ path b)"; cases "body b"; cases r)
       (simp_all add: ParseRequest_def select_body_def materialize_def chosen_body_def
          stamped_def Let_def e1 e2 e3 e4 el r modify_map_def load_map_def h_def [symmetric])
qed


lemma ParseRequest_ok:
  assumes w: "wfs s" and o: "observe s c = Some b"
  shows "\<exists>s'. ParseRequest L c s = Some (fst (materialize L (header (clients s ! c)) b), s') \<and>
           wfs s' \<and> wire s' = wire s \<and> length (clients s') = length (clients s) \<and>
           load_map s' (header (clients s ! c)) = Some (snd (materialize L (header (clients s ! c)) b)) \<and>
           observe s' c = Some (b\<lparr>header := snd (materialize L (header (clients s ! c)) b)\<rparr>) \<and>
           (\<forall>d < length (clients s). d \<noteq> c \<longrightarrow> observe s' d = observe s d)"
proof -
  have c: "c < length (clients s)" by (rule observe_valid [OF o])
  have v: "view s c = b" by (rule observe_eq_view [OF w o])
  define h where "h = header (clients s ! c)"
  define H where "H = snd (materialize L h b)"
  define s' where "s' = s\<lparr>mapobjs := (mapobjs s)[h := H]\<rparr>"
  note d = wfsD [OF w c, folded h_def]
  have "distinct (map fst (mapobjs s ! h))" using w d by (simp add: wfs_def list_all_length)
  moreover have hb: "mapobjs s ! h = header b"
    using v by (auto simp: view_def Let_def resolve_def h_def)
  ultimately have dH: "distinct (map fst H)" by (simp add: H_def keeps_materialize)
  then have k: "keeps (\<lambda>m. H)" by (simp add: keeps_def)
  from implements_on_header [OF k] w c obtain s2 where 2: "on_header (\<lambda>m. H) c s = Some s2"
      "wfs s2" "length (clients s2) = length (clients s)" "wire s2 = wire s"
      "view s2 c = (view s c)\<lparr>header := H\<rparr>"
      "\<forall>b. safe s c b \<longrightarrow> safe s2 c b \<and> view s2 b = view s b"
    unfolding implements_def by (metis (no_types))
  have s2: "s2 = s'" using 2(1) c d
    by (simp add: on_header_def deref_def modify_map_def s'_def h_def)
  have fr: "\<forall>d < length (clients s). d \<noteq> c \<longrightarrow> observe s' d = observe s d"
  proof (intro allI impI)
    fix d assume dl: "d < length (clients s)" and dc: "d \<noteq> c"
    have cl: "clients s' = clients s" "arrays s' = arrays s" by (simp_all add: s'_def)
    have "header (clients s ! d) \<noteq> h" "query (clients s ! d) \<noteq> h" "form (clients s ! d) \<noteq> h"
      using wfs_other [OF w dl c dc] by (simp_all add: h_def)
    then show "observe s' d = observe s d"
      by (simp add: observe_def deref_def load_map_def elements_def load_array_def s'_def)
  qed
  have "observe s' c = Some (b\<lparr>header := H\<rparr>)"
    using observe_view [of s' c] 2(2,3,5) c v s2 by simp
  moreover have "load_map s' h = Some H" using d by (simp add: load_map_def s'_def)
  ultimately show ?thesis
    using ParseRequest_run [OF w o, of L] 2(2,3,4) s2 fr
    by (intro exI [of _ s']) (simp add: s'_def H_def h_def)
qed

lemma materialize_Header: "fst (materialize L hdr b) = Inr req \<Longrightarrow> Header req = hdr"
  by (auto simp: materialize_def split: sum.splits if_splits prod.splits)

lemma Send_ok:
  assumes w: "wfs s" and o: "observe s c = Some b"
  shows "\<exists>s'. ParseRequest L c s = Some (fst (materialize L (header (clients s ! c)) b), s') \<and>
           wire s' = wire s \<and>
           Send L c s =
             Some (case fst (materialize L (header (clients s ! c)) b) of
                     Inl err \<Rightarrow> (\<lparr>Response = None, Err = Some err\<rparr>, s')
                   | Inr req \<Rightarrow>
                       (case Do L (snd (materialize L (header (clients s ! c)) b)) req of
                          Inl e \<Rightarrow> \<lparr>Response = None, Err = Some (TransportError e)\<rparr>
                        | Inr resp \<Rightarrow> \<lparr>Response = Some resp, Err = None\<rparr>,
                        s'\<lparr>wire := wire s' @ [req]\<rparr>))"
proof -
  from ParseRequest_ok [OF w o, of L] obtain s' where 1:
      "ParseRequest L c s = Some (fst (materialize L (header (clients s ! c)) b), s')"
      "wire s' = wire s"
      "load_map s' (header (clients s ! c)) = Some (snd (materialize L (header (clients s ! c)) b))"
    by blast
  show ?thesis
  proof (cases "fst (materialize L (header (clients s ! c)) b)")
    case (Inl e)
    with 1 show ?thesis by (intro exI [of _ s']) (simp add: Send_def)
  next
    case (Inr req)
    then have "Header req = header (clients s ! c)" by (rule materialize_Header)
    with 1 Inr show ?thesis
      by (intro exI [of _ s']) (auto simp: Send_def split: sum.splits)
  qed
qed

lemma file_parts_simps [simp]:
  "file_parts [] = []"
  "file_parts (Some f # fs) = FormFile (key f) (filename f) (content f) # file_parts fs"
  "file_parts (None # fs) = file_parts fs"
  by (simp_all add: file_parts_def)

lemma write_files_parts: "write_files L w fs = Some (Inr w') \<Longrightarrow> w' = w @ file_parts fs"
proof (induction fs arbitrary: w)
  case Nil
  then show ?case by simp
next
  case (Cons f fs)
  show ?case
  proof (cases f)
    case None
    with Cons.prems show ?thesis by simp
  next
    case (Some ff)
    from Cons.prems Some obtain w1 w2 where
      1: "CreateFormFile L w (key ff) (filename ff) = Inr w1"
      and 2: "part_Write L w1 (content ff) = Inr w2"
      and 3: "write_files L w2 fs = Some (Inr w')"
      by (auto split: sum.splits)
    from 1 have "w1 = w @ [FormFile (key ff) (filename ff) []]"
      by (simp add: CreateFormFile_def faulty_def split: option.splits)
    with 2 have "w2 = w @ [FormFile (key ff) (filename ff) (content ff)]"
      by (simp add: part_Write_def faulty_def split: option.splits)
    with Cons.IH [OF 3] Some show ?thesis by simp
  qed
qed

lemma WriteField_parts: "WriteField L w k v = Inr w' \<Longrightarrow> w' = w @ [FormField k v]"
  by (auto simp: WriteField_def CreateFormField_def part_Write_def faulty_def
      split: option.splits sum.splits)

lemma write_values_parts: "write_values L w k vs = Inr w' \<Longrightarrow> w' = w @ map (FormField k) vs"
proof (induction vs arbitrary: w)
  case Nil
  then show ?case by simp
next
  case (Cons v vs)
  from Cons.prems obtain w1 where 1: "WriteField L w k v = Inr w1"
    and 2: "write_values L w1 k vs = Inr w'"
    by (auto split: sum.splits)
  from WriteField_parts [OF 1] Cons.IH [OF 2] show ?case by simp
qed

lemma write_entries_parts:
  "write_entries L w m = Inr w' \<Longrightarrow> w' = w @ concat (map (\<lambda>(k, vs). map (FormField k) vs) m)"
proof (induction m arbitrary: w)
  case Nil
  then show ?case by simp
next
  case (Cons e m)
  obtain k vs where e: "e = (k, vs)" by (cases e)
  from Cons.prems obtain w1 where 1: "write_values L w k vs = Inr w1"
    and 2: "write_entries L w1 m = Inr w'"
    by (auto simp: e split: sum.splits)
  from write_values_parts [OF 1] Cons.IH [OF 2] show ?case by (simp add: e)
qed

lemma write_multipart_parts:
  assumes "write_multipart L fs fm = Some (Inr w)"
  shows "w = file_parts fs @ field_parts L fm"
proof -
  from assms obtain w1 w2 where 1: "write_files L [] fs = Some (Inr w1)"
    and 2: "write_entries L w1 (range_order L fm) = Inr w2"
    and 3: "Writer_Close L w2 = Inr w"
    by (auto simp: write_multipart_def split: option.splits sum.splits)
  from 3 have "w = w2" by (simp add: Writer_Close_def faulty_def split: option.splits)
  with write_files_parts [OF 1] write_entries_parts [OF 2] show ?thesis
    by (simp add: field_parts_def)
qed

lemma write_files_error: "write_files L w fs = Some (Inl e) \<Longrightarrow> \<exists>m. e = MultipartError m"
proof (induction fs arbitrary: w)
  case Nil
  then show ?case by simp
next
  case (Cons f fs)
  then show ?case
    by (cases f)
       (auto simp: CreateFormFile_def part_Write_def faulty_def split: sum.splits option.splits)
qed

lemma write_values_error: "write_values L w k vs = Inl e \<Longrightarrow> \<exists>m. e = MultipartError m"
  by (induction vs arbitrary: w)
     (auto simp: WriteField_def CreateFormField_def part_Write_def faulty_def
        split: sum.splits option.splits)

lemma write_entries_error: "write_entries L w m = Inl e \<Longrightarrow> \<exists>m. e = MultipartError m"
  by (induction m arbitrary: w) (auto split: sum.splits dest: write_values_error)

lemma write_multipart_error:
  "write_multipart L fs fm = Some (Inl e) \<Longrightarrow> \<exists>m. e = MultipartError m"
  by (auto simp: write_multipart_def Writer_Close_def faulty_def
      split: option.splits sum.splits dest: write_files_error write_entries_error)

lemma write_files_sound:
  "\<forall>w. write_fault L w = None \<Longrightarrow> None \<notin> set fs \<Longrightarrow> \<exists>w'. write_files L w fs = Some (Inr w')"
proof (induction fs arbitrary: w)
  case Nil
  then show ?case by simp
next
  case (Cons f fs)
  then show ?case
    by (cases f) (auto simp: CreateFormFile_def part_Write_def faulty_def)
qed

lemma write_values_sound:
  "\<forall>w. write_fault L w = None \<Longrightarrow> \<exists>w'. write_values L w k vs = Inr w'"
  by (induction vs arbitrary: w)
     (auto simp: WriteField_def CreateFormField_def part_Write_def faulty_def)

lemma write_entries_sound:
  "\<forall>w. write_fault L w = None \<Longrightarrow> \<exists>w'. write_entries L w m = Inr w'"
proof (induction m arbitrary: w)
  case Nil
  then show ?case by simp
next
  case (Cons e m)
  obtain k vs where e: "e = (k, vs)" by (cases e)
  from write_values_sound [OF Cons.prems, of w k vs] obtain w1 where
    "write_values L w k vs = Inr w1" by blast
  with Cons.IH [OF Cons.prems, of w1] show ?case by (auto simp: e)
qed

lemma write_multipart_sound:
  assumes "\<forall>w. write_fault L w = None" "None \<notin> set fs"
  shows "\<exists>w'. write_multipart L fs fm = Some (Inr w')"
proof -
  from write_files_sound [OF assms, of "[]"] obtain w1 where
    1: "write_files L [] fs = Some (Inr w1)" by blast
  from write_entries_sound [OF assms(1), of w1 "range_order L fm"] obtain w2 where
    2: "write_entries L w1 (range_order L fm) = Inr w2" by blast
  show ?thesis using 1 2 assms(1)
    by (simp add: write_multipart_def Writer_Close_def faulty_def)
qed

lemma observe_files: "wfs s \<Longrightarrow> observe s c = Some b \<Longrightarrow> None \<notin> set (files b)"
proof -
  assume w: "wfs s" and o: "observe s c = Some b"
  have c: "c < length (clients s)" by (rule observe_valid [OF o])
  have "wf_client s (clients s ! c)" using w c by (simp add: wfs_def list_all_length)
  moreover have "files (view s c) = take (len (files (clients s ! c))) (arrays s ! arr (files (clients s ! c)))"
    by (simp add: view_def Let_def resolve_def)
  ultimately show ?thesis using observe_eq_view [OF w o] by (auto simp: wf_client_def)
qed

lemma chain_from_new:
  "\<exists>c s. invoke_all L ms 0 (snd (New empty_state)) = Some (c, s) \<and> wfs s \<and>
      wire s = [] \<and> observe s c = Some (foldl (\<lambda>b m. effect L m b) fresh ms)"
  using invoke_all_observe [OF new_state, of L ms]
  by (simp add: New_def new_map_def new_array_def new_client_def empty_state_def)

section \<open>Conflicting content: claim C4\<close>

text \<open>
  C4, as stated, has every builder with a body and a form field fail with the
  "multiple content type" error. \<^verbatim>\<open>ParseRequest\<close> parses the target URL before it
  looks for the conflict: with a base URL that holds a control byte, the chain of
  \<^verbatim>\<open>TestExpectedError\<close> fails with the error of \<^verbatim>\<open>url.Parse\<close> instead.
\<close>

theorem C4_url_error_counterexample:
  "(invoke_all sample_lib
      [CSetURL [CHR 0x7F], CAddFormField ''1'' ''1'', CSetRawBody (Some ''123'')]
      0 (snd (New empty_state))
    \<bind> (\<lambda>(c, s). map_option fst (ParseRequest sample_lib c s)))
   = Some (Inl (URLError ''net/url: invalid control character in URL''))"
proof -
  let ?ms = "[CSetURL [CHR 0x7F], CAddFormField ''1'' ''1'', CSetRawBody (Some ''123'')]"
  from chain_from_new [of sample_lib ?ms] obtain c s where 1:
      "invoke_all sample_lib ?ms 0 (snd (New empty_state)) = Some (c, s)" "wfs s"
      "observe s c = Some (foldl (\<lambda>b m. effect sample_lib m b) fresh ?ms)"
    by blast
  have "fst (materialize sample_lib hdr (foldl (\<lambda>b m. effect sample_lib m b) fresh ?ms))
          = Inl (URLError ''net/url: invalid control character in URL'')" for hdr
    by (simp add: materialize_def fresh_def sample_lib_def TrimRight_def
        stringContainsCTLByte_def)
  with ParseRequest_run [OF 1(2,3), of sample_lib] 1(1) show ?thesis by simp
qed

text \<open>
  C4, amended: for every builder in which a raw/JSON body is set and at least one form
  field or file attachment is present, \<^verbatim>\<open>ParseRequest\<close> fails, \<^verbatim>\<open>Send\<close> returns a
  wrapper carrying only that error and hands no request to the transport, and
  \<^verbatim>\<open>AsBytes\<close> on that wrapper returns that error; the error is the "multiple content
  type" conflict error when the target URL parses, and the error of \<^verbatim>\<open>url.Parse\<close>
  when it does not.
\<close>

theorem C4_conflict_after_url:
  assumes "wfs s" and "observe s c = Some b"
    and "body b \<noteq> None" and "files b \<noteq> [] \<or> form b \<noteq> []"
  shows "\<exists>e s'. ParseRequest L c s = Some (Inl e, s') \<and>
           Send L c s = Some (\<lparr>Response = None, Err = Some e\<rparr>, s') \<and>
           wire s' = wire s \<and>
           fst (AsBytes \<lparr>Response = None, Err = Some e\<rparr>) = Inl e \<and>
           e = (case Parse L (url b @ path b) of
                  Inl m \<Rightarrow> URLError m
                | Inr u \<Rightarrow> errors_New ''unirest-go: can send this request with multiple content type'')"
proof -
  let ?e = "case Parse L (url b @ path b) of
              Inl m \<Rightarrow> URLError m
            | Inr u \<Rightarrow> errors_New ''unirest-go: can send this request with multiple content type''"
  have m: "fst (materialize L (header (clients s ! c)) b) = Inl ?e"
    using assms(3,4) by (auto simp: materialize_def split: sum.splits)
  from Send_ok [OF assms(1,2), of L] obtain s' where
      "ParseRequest L c s = Some (fst (materialize L (header (clients s ! c)) b), s')"
      "wire s' = wire s"
      "Send L c s =
         Some (case fst (materialize L (header (clients s ! c)) b) of
                 Inl err \<Rightarrow> (\<lparr>Response = None, Err = Some err\<rparr>, s')
               | Inr req \<Rightarrow>
                   (case Do L (snd (materialize L (header (clients s ! c)) b)) req of
                      Inl e \<Rightarrow> \<lparr>Response = None, Err = Some (TransportError e)\<rparr>
                    | Inr resp \<Rightarrow> \<lparr>Response = Some resp, Err = None\<rparr>,
                    s'\<lparr>wire := wire s' @ [req]\<rparr>))"
    by blast
  then show ?thesis
    unfolding m by (intro exI [of _ ?e] exI [of _ s']) (simp add: AsBytes_def)
qed

theorem C4_conflict_after_url_witness:
  "\<exists>c s. invoke_all sample_lib [CAddFormField ''1'' ''1'', CSetRawBody (Some ''123'')]
            0 (snd (New empty_state)) = Some (c, s) \<and>
     wfs s \<and>
     observe s c = Some (foldl (\<lambda>b m. effect sample_lib m b) fresh
                           [CAddFormField ''1'' ''1'', CSetRawBody (Some ''123'')]) \<and>
     (\<exists>s'. ParseRequest sample_lib c s =
              Some (Inl (errors_New
                ''unirest-go: can send this request with multiple content type''), s') \<and>
        Send sample_lib c s =
          Some (\<lparr>Response = None, Err = Some (errors_New
                ''unirest-go: can send this request with multiple content type'')\<rparr>, s') \<and>
        wire s' = wire s)"
proof -
  let ?ms = "[CAddFormField ''1'' ''1'', CSetRawBody (Some ''123'')]"
  let ?b = "foldl (\<lambda>b m. effect sample_lib m b) fresh ?ms"
  from chain_from_new [of sample_lib ?ms] obtain c s where 1:
      "invoke_all sample_lib ?ms 0 (snd (New empty_state)) = Some (c, s)" "wfs s"
      "observe s c = Some ?b"
    by blast
  have 2: "body ?b \<noteq> None" "files ?b \<noteq> [] \<or> form ?b \<noteq> []"
    by (simp_all add: fresh_def Values_Add_def)
  have 3: "Parse sample_lib (url ?b @ path ?b) = Inr \<lparr>Scheme = [], Host = [], Path = [], RawQuery = []\<rparr>"
    by (simp add: fresh_def sample_lib_def stringContainsCTLByte_def)
  from C4_conflict_after_url [OF 1(2,3) 2, of sample_lib] 1 show ?thesis
    unfolding 3 by (intro exI [of _ c] exI [of _ s]) auto
qed

section \<open>Body selection: claim C5\<close>

text \<open>
  C5. For a builder whose target URL parses and which passes the conflict check, so
  that \<^verbatim>\<open>ParseRequest\<close> reaches the body selection, exactly one branch is taken, in
  this order. With a body set, the request's body is the body bytes (and the header
  map is left as the \<^verbatim>\<open>User-Agent\<close> and \<^verbatim>\<open>Authorization\<close> writes made it). Otherwise,
  with files attached, the multipart branch: the result is either an error of the
  multipart writer (possible only if one of its writes fails), or a request whose body
  is rendered, with the boundary drawn, from one file part per attachment with its
  key, file name and content, in attachment order, followed by the form fields as
  field parts, and \<^verbatim>\<open>Content-Type\<close> is the writer's form-data content type with that
  boundary. Otherwise, with form fields, the body is the URL-encoded form and
  \<^verbatim>\<open>Content-Type\<close> is \<^verbatim>\<open>application/x-www-form-urlencoded\<close>. Otherwise there is no body.
\<close>

theorem C5_body_selection:
  assumes "wfs s" and "observe s c = Some b"
    and "Parse L (url b @ path b) = Inr u"
    and "body b = None \<or> (files b = [] \<and> form b = [])"
  shows "\<exists>r s' h'. ParseRequest L c s = Some (r, s') \<and>
           map_option header (observe s' c) = Some h' \<and>
           (case body b of
              Some d \<Rightarrow> (\<exists>req. r = Inr req \<and> Body req = Some d \<and> h' = stamped L b)
            | None \<Rightarrow>
                if files b \<noteq> [] then
                  (case r of
                     Inl e \<Rightarrow> (\<exists>m. e = MultipartError m) \<and> (\<exists>w. write_fault L w \<noteq> None)
                   | Inr req \<Rightarrow>
                       Body req = Some (render L (randomBoundary L)
                                          (file_parts (files b) @ field_parts L (form b))) \<and>
                       map_of h' (CanonicalMIMEHeaderKey L ''Content-Type'')
                         = Some [FormDataContentType (randomBoundary L)])
                else if form b \<noteq> [] then
                  (\<exists>req. r = Inr req \<and> Body req = Some (Encode L (form b)) \<and>
                     map_of h' (CanonicalMIMEHeaderKey L ''Content-Type'')
                       = Some [''application/x-www-form-urlencoded''])
                else (\<exists>req. r = Inr req \<and> Body req = None \<and> h' = stamped L b))"
proof -
  let ?h = "header (clients s ! c)"
  from ParseRequest_ok [OF assms(1,2), of L] obtain s' where 1:
      "ParseRequest L c s = Some (fst (materialize L ?h b), s')"
      "observe s' c = Some (b\<lparr>header := snd (materialize L ?h b)\<rparr>)"
    by blast
  have nn: "None \<notin> set (files b)" by (rule observe_files [OF assms(1,2)])
  from write_multipart_total [OF nn, of L "form b"] obtain x where
    x: "write_multipart L (files b) (form b) = Some x" by auto
  have sound: "\<exists>w. write_fault L w \<noteq> None" if "x = Inl e" for e
  proof (rule ccontr)
    assume "\<not> (\<exists>w. write_fault L w \<noteq> None)"
    then have "\<forall>w. write_fault L w = None" by simp
    from write_multipart_sound [OF this nn, of "form b"] x that show False by simp
  qed
  have "case body b of
              Some d \<Rightarrow> (\<exists>req. fst (materialize L ?h b) = Inr req \<and> Body req = Some d \<and>
                          snd (materialize L ?h b) = stamped L b)
            | None \<Rightarrow>
                if files b \<noteq> [] then
                  (case fst (materialize L ?h b) of
                     Inl e \<Rightarrow> (\<exists>m. e = MultipartError m) \<and> (\<exists>w. write_fault L w \<noteq> None)
                   | Inr req \<Rightarrow>
                       Body req = Some (render L (randomBoundary L)
                                          (file_parts (files b) @ field_parts L (form b))) \<and>
                       map_of (snd (materialize L ?h b)) (CanonicalMIMEHeaderKey L ''Content-Type'')
                         = Some [FormDataContentType (randomBoundary L)])
                else if form b \<noteq> [] then
                  (\<exists>req. fst (materialize L ?h b) = Inr req \<and> Body req = Some (Encode L (form b)) \<and>
                     map_of (snd (materialize L ?h b)) (CanonicalMIMEHeaderKey L ''Content-Type'')
                       = Some [''application/x-www-form-urlencoded''])
                else (\<exists>req. fst (materialize L ?h b) = Inr req \<and> Body req = None \<and>
                        snd (materialize L ?h b) = stamped L b)"
  proof (cases "body b")
    case (Some d)
    with assms(3,4) show ?thesis by (simp add: materialize_def chosen_body_def)
  next
    case None
    show ?thesis
    proof (cases x)
      case (Inl e)
      with None assms(3) x write_multipart_error [of L "files b" "form b" e] sound [of e]
      show ?thesis
        by (auto simp: materialize_def chosen_body_def Header_Set_def update_conv' s2b_def)
    next
      case (Inr w)
      with x have "w = file_parts (files b) @ field_parts L (form b)"
        using write_multipart_parts [of L "files b" "form b" w] by simp
      with Inr None assms(3) x show ?thesis
        by (auto simp: materialize_def chosen_body_def Header_Set_def update_conv' s2b_def)
    qed
  qed
  with 1 show ?thesis
    by (intro exI [of _ "fst (materialize L ?h b)"] exI [of _ s']
          exI [of _ "snd (materialize L ?h b)"]) simp
qed

theorem C5_body_selection_witness:
  "\<exists>c s b. invoke_all sample_lib
              [CAddFile ''file1'' ''file1.txt'' ''file1'', CAddFormField ''a'' ''1'']
              0 (snd (New empty_state)) = Some (c, s) \<and>
     wfs s \<and> observe s c = Some b \<and>
     Parse sample_lib (url b @ path b) = Inr \<lparr>Scheme = [], Host = [], Path = [], RawQuery = []\<rparr> \<and>
     body b = None \<and> files b \<noteq> [] \<and>
     (\<exists>req s' h'. ParseRequest sample_lib c s = Some (Inr req, s') \<and>
        map_option header (observe s' c) = Some h' \<and>
        Body req = Some ''--xyzfile1file1.txtfile1--xyza1'' \<and>
        map_of h' ''Content-Type'' = Some [''multipart/form-data; boundary=xyz''])"
proof -
  let ?ms = "[CAddFile ''file1'' ''file1.txt'' ''file1'', CAddFormField ''a'' ''1'']"
  let ?b = "foldl (\<lambda>b m. effect sample_lib m b) fresh ?ms"
  let ?u = "\<lparr>Scheme = [], Host = [], Path = [], RawQuery = []\<rparr>"
  from chain_from_new [of sample_lib ?ms] obtain c s where 1:
      "invoke_all sample_lib ?ms 0 (snd (New empty_state)) = Some (c, s)" "wfs s"
      "observe s c = Some ?b"
    by blast
  have 2: "Parse sample_lib (url ?b @ path ?b) = Inr ?u"
    by (simp add: fresh_def sample_lib_def stringContainsCTLByte_def)
  have 3: "body ?b = None" "files ?b \<noteq> []" by (simp_all add: fresh_def)
  have 4: "body ?b = None \<or> (files ?b = [] \<and> form ?b = [])" using 3 by simp
  from C5_body_selection [OF 1(2,3) 2 4] obtain r s' h' where 5:
      "ParseRequest sample_lib c s = Some (r, s')"
      "map_option header (observe s' c) = Some h'"
      "case r of
         Inl e \<Rightarrow> (\<exists>m. e = MultipartError m) \<and> (\<exists>w. write_fault sample_lib w \<noteq> None)
       | Inr req \<Rightarrow>
           Body req = Some (render sample_lib (randomBoundary sample_lib)
                              (file_parts (files ?b) @ field_parts sample_lib (form ?b))) \<and>
           map_of h' (CanonicalMIMEHeaderKey sample_lib ''Content-Type'')
             = Some [FormDataContentType (randomBoundary sample_lib)]"
    using 3 by auto
  have 6: "render sample_lib (randomBoundary sample_lib)
             (file_parts (files ?b) @ field_parts sample_lib (form ?b))
           = ''--xyzfile1file1.txtfile1--xyza1''"
    by (simp add: fresh_def sample_lib_def field_parts_def range_order_def Values_Add_def
        index_def)
  show ?thesis
  proof (cases r)
    case (Inl e)
    with 5(3) show ?thesis by (simp add: sample_lib_def)
  next
    case (Inr req)
    with 5 6 have "ParseRequest sample_lib c s = Some (Inr req, s')"
        "Body req = Some ''--xyzfile1file1.txtfile1--xyza1''"
        "map_of h' ''Content-Type'' = Some [''multipart/form-data; boundary=xyz'']"
      by (simp_all add: sample_lib_def FormDataContentType_def)
    with 1 2 3 5(2) show ?thesis
      by (intro exI [of _ c] exI [of _ s] exI [of _ ?b]) blast
  qed
qed

section \<open>The nil body: claim C10\<close>

text \<open>
  C10, as stated, has \<^verbatim>\<open>ParseRequest\<close> produce the URL-encoded form body whenever form
  fields are present after \<^verbatim>\<open>SetRawBody(nil)\<close>. With a file attached as well it
  produces the multipart body, and with a target URL that does not parse it fails
  with the error of \<^verbatim>\<open>url.Parse\<close>.
\<close>

theorem C10_nil_body_counterexample:
  "(invoke_all sample_lib
      [CAddFormField ''a'' ''1'', CAddFile ''f'' ''f.txt'' ''x'', CSetRawBody None]
      0 (snd (New empty_state))
    \<bind> (\<lambda>(c, s). ParseRequest sample_lib c s)
    \<bind> (\<lambda>(r, s). case r of Inl e \<Rightarrow> None | Inr req \<Rightarrow> Body req))
   = Some ''--xyzff.txtx--xyza1''
   \<and>
   (invoke_all sample_lib
      [CSetURL [CHR 0x7F], CAddFormField ''a'' ''1'', CSetRawBody None]
      0 (snd (New empty_state))
    \<bind> (\<lambda>(c, s). map_option fst (ParseRequest sample_lib c s)))
   = Some (Inl (URLError ''net/url: invalid control character in URL''))"
proof
  let ?ms = "[CAddFormField ''a'' ''1'', CAddFile ''f'' ''f.txt'' ''x'', CSetRawBody None]"
  from chain_from_new [of sample_lib ?ms] obtain c s where 1:
      "invoke_all sample_lib ?ms 0 (snd (New empty_state)) = Some (c, s)" "wfs s"
      "observe s c = Some (foldl (\<lambda>b m. effect sample_lib m b) fresh ?ms)"
    by blast
  have "\<exists>req. fst (materialize sample_lib hdr (foldl (\<lambda>b m. effect sample_lib m b) fresh ?ms))
          = Inr req \<and> Body req = Some ''--xyzff.txtx--xyza1''" for hdr
    by (simp add: materialize_def chosen_body_def fresh_def sample_lib_def
        stringContainsCTLByte_def write_multipart_def CreateFormFile_def part_Write_def
        faulty_def range_order_def Values_Add_def index_def WriteField_def
        CreateFormField_def Writer_Close_def)
  then obtain req where 2:
      "fst (materialize sample_lib (header (clients s ! c))
             (foldl (\<lambda>b m. effect sample_lib m b) fresh ?ms)) = Inr req"
      "Body req = Some ''--xyzff.txtx--xyza1''"
    by blast
  from ParseRequest_run [OF 1(2,3), of sample_lib] obtain s' where
    3: "ParseRequest sample_lib c s = Some (Inr req, s')"
    unfolding 2(1) by blast
  show "(invoke_all sample_lib ?ms 0 (snd (New empty_state))
          \<bind> (\<lambda>(c, s). ParseRequest sample_lib c s)
          \<bind> (\<lambda>(r, s). case r of Inl e \<Rightarrow> None | Inr req \<Rightarrow> Body req))
        = Some ''--xyzff.txtx--xyza1''"
    unfolding 1(1) by (simp add: 3 2(2))
next
  let ?ms = "[CSetURL [CHR 0x7F], CAddFormField ''a'' ''1'', CSetRawBody None]"
  from chain_from_new [of sample_lib ?ms] obtain c s where 1:
      "invoke_all sample_lib ?ms 0 (snd (New empty_state)) = Some (c, s)" "wfs s"
      "observe s c = Some (foldl (\<lambda>b m. effect sample_lib m b) fresh ?ms)"
    by blast
  have 2: "fst (materialize sample_lib hdr (foldl (\<lambda>b m. effect sample_lib m b) fresh ?ms))
          = Inl (URLError ''net/url: invalid control character in URL'')" for hdr
    by (simp add: materialize_def fresh_def sample_lib_def TrimRight_def
        stringContainsCTLByte_def)
  from ParseRequest_run [OF 1(2,3), of sample_lib] obtain s' where
    3: "ParseRequest sample_lib c s
          = Some (Inl (URLError ''net/url: invalid control character in URL''), s')"
    unfolding 2 by blast
  show "(invoke_all sample_lib ?ms 0 (snd (New empty_state))
          \<bind> (\<lambda>(c, s). map_option fst (ParseRequest sample_lib c s)))
        = Some (Inl (URLError ''net/url: invalid control character in URL''))"
    unfolding 1(1) by (simp add: 3)
qed

text \<open>
  C10, amended: a body is set when the stored slice is not nil, so on every builder
  \<^verbatim>\<open>SetRawBody(nil)\<close> leaves the body unset, although it sets the method to \<^verbatim>\<open>POST\<close>
  and deletes the \<^verbatim>\<open>Content-Type\<close> header; \<^verbatim>\<open>ParseRequest\<close> on the result never
  fails with the "multiple content type" error, and with form fields present, no
  file attached and a target URL that parses it produces the URL-encoded form body
  with \<^verbatim>\<open>Content-Type: application/x-www-form-urlencoded\<close>.
\<close>

theorem C10_nil_body:
  assumes "wfs s" and "observe s c = Some b"
  shows "\<exists>c1 s1 b1 r s2.
           SetRawBody L None c s = Some (c1, s1) \<and> observe s1 c1 = Some b1 \<and>
           body b1 = None \<and> meth b1 = ''POST'' \<and>
           map_of (header b1) (CanonicalMIMEHeaderKey L ''Content-Type'') = None \<and>
           ParseRequest L c1 s1 = Some (r, s2) \<and>
           r \<noteq> Inl (errors_New ''unirest-go: can send this request with multiple content type'') \<and>
           (form b \<noteq> [] \<and> files b = [] \<and> (\<exists>u. Parse L (url b @ path b) = Inr u) \<longrightarrow>
              (\<exists>req h'. r = Inr req \<and> Body req = Some (Encode L (form b)) \<and>
                 map_option header (observe s2 c1) = Some h' \<and>
                 map_of h' (CanonicalMIMEHeaderKey L ''Content-Type'')
                   = Some [''application/x-www-form-urlencoded'']))"
proof -
  let ?b1 = "effect L (CSetRawBody None) b"
  from invoke_observe [OF assms, of L "CSetRawBody None"] obtain c1 s1 where 1:
      "SetRawBody L None c s = Some (c1, s1)" "wfs s1" "observe s1 c1 = Some ?b1"
    by auto
  let ?h = "header (clients s1 ! c1)"
  from ParseRequest_ok [OF 1(2,3), of L] obtain s2 where 2:
      "ParseRequest L c1 s1 = Some (fst (materialize L ?h ?b1), s2)"
      "observe s2 c1 = Some (?b1\<lparr>header := snd (materialize L ?h ?b1)\<rparr>)"
    by blast
  have nn: "None \<notin> set (files b)" by (rule observe_files [OF assms])
  have a: "fst (materialize L ?h ?b1)
             \<noteq> Inl (errors_New ''unirest-go: can send this request with multiple content type'')"
    using write_multipart_error [of L "files b" "form b"]
    by (auto simp: materialize_def chosen_body_def split: sum.splits option.splits)
  have b: "\<exists>req. fst (materialize L ?h ?b1) = Inr req \<and> Body req = Some (Encode L (form b)) \<and>
             map_of (snd (materialize L ?h ?b1)) (CanonicalMIMEHeaderKey L ''Content-Type'')
               = Some [''application/x-www-form-urlencoded'']"
    if "form b \<noteq> []" "files b = []" "Parse L (url b @ path b) = Inr u" for u
    using that
    by (simp add: materialize_def chosen_body_def Header_Set_def update_conv' s2b_def)
  show ?thesis
    using 1(1,3) 2 a b
    by (intro exI [of _ c1] exI [of _ s1] exI [of _ ?b1]
          exI [of _ "fst (materialize L ?h ?b1)"] exI [of _ s2])
       (auto simp: Header_Del_def delete_conv')
qed

theorem C10_nil_body_witness:
  "\<exists>c s b. invoke_all sample_lib [CAddFormField ''a'' ''1''] 0 (snd (New empty_state))
              = Some (c, s) \<and>
     wfs s \<and> observe s c = Some b \<and> form b \<noteq> [] \<and> files b = [] \<and>
     (\<exists>u. Parse sample_lib (url b @ path b) = Inr u) \<and>
     (\<exists>c1 s1 b1 req s2.
        SetRawBody sample_lib None c s = Some (c1, s1) \<and> observe s1 c1 = Some b1 \<and>
        body b1 = None \<and> meth b1 = ''POST'' \<and>
        ParseRequest sample_lib c1 s1 = Some (Inr req, s2) \<and> Body req = Some ''a=1&'')"
proof -
  let ?ms = "[CAddFormField ''a'' ''1'']"
  let ?b = "foldl (\<lambda>b m. effect sample_lib m b) fresh ?ms"
  from chain_from_new [of sample_lib ?ms] obtain c s where 1:
      "invoke_all sample_lib ?ms 0 (snd (New empty_state)) = Some (c, s)" "wfs s"
      "observe s c = Some ?b"
    by blast
  have 2: "form ?b \<noteq> []" "files ?b = []"
      "\<exists>u. Parse sample_lib (url ?b @ path ?b) = Inr u"
    by (simp_all add: fresh_def sample_lib_def stringContainsCTLByte_def Values_Add_def)
  have 3: "Encode sample_lib (form ?b) = ''a=1&''"
    by (simp add: fresh_def sample_lib_def Values_Add_def index_def)
  from C10_nil_body [OF 1(2,3), of sample_lib] 2 obtain c1 s1 b1 req s2 where 4:
      "SetRawBody sample_lib None c s = Some (c1, s1)" "observe s1 c1 = Some b1"
      "body b1 = None" "meth b1 = ''POST''"
      "ParseRequest sample_lib c1 s1 = Some (Inr req, s2)"
      "Body req = Some (Encode sample_lib (form ?b))"
    by blast
  have 5: "Body req = Some ''a=1&''" using 4(6) unfolding 3 .
  have "\<exists>c1 s1 b1 req s2.
        SetRawBody sample_lib None c s = Some (c1, s1) \<and> observe s1 c1 = Some b1 \<and>
        body b1 = None \<and> meth b1 = ''POST'' \<and>
        ParseRequest sample_lib c1 s1 = Some (Inr req, s2) \<and> Body req = Some ''a=1&''"
    using 4(1-5) 5 by blast
  with 1 2 show ?thesis by blast
qed

section \<open>Materialization and the builder's header map: claim C3\<close>

text \<open>
  \<^verbatim>\<open>ParseRequest\<close> builds the request with \<^verbatim>\<open>Header: c.header\<close>, the builder's own map,
  and then sets \<^verbatim>\<open>User-Agent\<close> (and \<^verbatim>\<open>Authorization\<close>, \<^verbatim>\<open>Content-Type\<close>) through
  \<^verbatim>\<open>req.Header\<close>: the writes land in the builder. \<open>ParseRequest_ok\<close> gives the general
  statement: after the call the builder shows \<open>snd (materialize L hdr b)\<close> as its
  header map.
\<close>

text \<open>
  C3 (what the code does where the claim fails). On every builder \<^verbatim>\<open>ParseRequest\<close>
  leaves all fields but the header map as they were and leaves a header map that is
  not empty: a builder that showed no header shows one afterwards.
\<close>

theorem C3_ParseRequest_writes_header:
  assumes "wfs s" and "observe s c = Some b"
  shows "\<exists>r s' h'. ParseRequest L c s = Some (r, s') \<and>
           observe s' c = Some (b\<lparr>header := h'\<rparr>) \<and> h' \<noteq> []"
proof -
  let ?h = "header (clients s ! c)"
  from ParseRequest_ok [OF assms, of L] obtain s' where 1:
      "ParseRequest L c s = Some (fst (materialize L ?h b), s')"
      "observe s' c = Some (b\<lparr>header := snd (materialize L ?h b)\<rparr>)"
    by blast
  have "snd (materialize L ?h b) \<noteq> []"
    by (auto simp: materialize_def chosen_body_def stamped_def Let_def Header_Set_def
        split: sum.splits option.splits if_splits)
  with 1 show ?thesis by blast
qed

theorem C3_ParseRequest_writes_header_witness:
  "wfs (snd (New empty_state)) \<and> observe (snd (New empty_state)) 0 = Some fresh \<and>
   header fresh = [] \<and>
   (\<exists>r s' h'. ParseRequest sample_lib 0 (snd (New empty_state)) = Some (r, s') \<and>
      observe s' 0 = Some (fresh\<lparr>header := h'\<rparr>) \<and> h' \<noteq> [])"
  using new_state C3_ParseRequest_writes_header [OF new_state, of sample_lib]
  by (simp add: fresh_def)

text \<open>
  The new builder of \<^verbatim>\<open>New()\<close>, evaluated: its header map is empty before
  \<^verbatim>\<open>ParseRequest\<close> and holds \<^verbatim>\<open>User-Agent: Unirest-Go/1.0\<close> after it.
\<close>

lemma new_builder_header_written:
  "map_option header (observe (snd (New empty_state)) 0) = Some []
   \<and> (ParseRequest sample_lib 0 (snd (New empty_state))
        \<bind> (\<lambda>(r, s'). map_option header (observe s' 0)))
      = Some [(''User-Agent'', [''Unirest-Go/1.0''])]"
proof -
  have m: "snd (materialize sample_lib hdr fresh) = [(''User-Agent'', [''Unirest-Go/1.0''])]" for hdr
    by (simp add: materialize_def chosen_body_def stamped_def fresh_def sample_lib_def
        stringContainsCTLByte_def Header_Set_def)
  from ParseRequest_ok [OF new_state, of sample_lib] obtain r s' where
      "ParseRequest sample_lib 0 (snd (New empty_state)) = Some (r, s')"
      "observe s' 0 = Some (fresh\<lparr>header := [(''User-Agent'', [''Unirest-Go/1.0''])]\<rparr>)"
    unfolding m by blast
  then show ?thesis using new_state(2) by (simp add: fresh_def)
qed


text \<open>
  The write is visible in later requests. A builder with credentials is materialized
  once; a builder derived from it with the credentials cleared then shows an empty
  credential pair, and yet its request carries the \<^verbatim>\<open>Authorization\<close> header that the
  first materialization left in the header map.
\<close>

lemma stale_Authorization:
  "\<exists>c1 s1 r1 s2 c2 s3 req s4 h.
     invoke_all sample_lib [CSetBasicAuth ''u'' ''p''] 0 (snd (New empty_state)) = Some (c1, s1) \<and>
     ParseRequest sample_lib c1 s1 = Some (r1, s2) \<and>
     SetBasicAuth [] [] c1 s2 = Some (c2, s3) \<and>
     map_option basicAuth (observe s3 c2) = Some ([], []) \<and>
     ParseRequest sample_lib c2 s3 = Some (Inr req, s4) \<and>
     load_map s4 (Header req) = Some h \<and>
     map_of h ''Authorization'' = Some [''Basic u:p'']"
proof -
  let ?b1 = "foldl (\<lambda>b m. effect sample_lib m b) fresh [CSetBasicAuth ''u'' ''p'']"
  from chain_from_new [of sample_lib "[CSetBasicAuth ''u'' ''p'']"] obtain c1 s1 where 1:
      "invoke_all sample_lib [CSetBasicAuth ''u'' ''p''] 0 (snd (New empty_state)) = Some (c1, s1)"
      "wfs s1" "observe s1 c1 = Some ?b1"
    by blast
  let ?h1 = "header (clients s1 ! c1)"
  from ParseRequest_ok [OF 1(2,3), of sample_lib] obtain s2 where 2:
      "ParseRequest sample_lib c1 s1 = Some (fst (materialize sample_lib ?h1 ?b1), s2)"
      "wfs s2" "observe s2 c1 = Some (?b1\<lparr>header := snd (materialize sample_lib ?h1 ?b1)\<rparr>)"
    by blast
  let ?b2 = "?b1\<lparr>header := snd (materialize sample_lib ?h1 ?b1)\<rparr>"
  let ?b3 = "effect sample_lib (CSetBasicAuth [] []) ?b2"
  from invoke_observe [OF 2(2,3), of sample_lib "CSetBasicAuth [] []"] obtain c2 s3 where 3:
      "SetBasicAuth [] [] c1 s2 = Some (c2, s3)" "wfs s3" "observe s3 c2 = Some ?b3"
    by auto
  let ?h3 = "header (clients s3 ! c2)"
  from ParseRequest_ok [OF 3(2,3), of sample_lib] obtain s4 where 4:
      "ParseRequest sample_lib c2 s3 = Some (fst (materialize sample_lib ?h3 ?b3), s4)"
      "load_map s4 ?h3 = Some (snd (materialize sample_lib ?h3 ?b3))"
    by blast
  have m1: "snd (materialize sample_lib hdr ?b1)
              = [(''User-Agent'', [''Unirest-Go/1.0'']), (''Authorization'', [''Basic u:p''])]" for hdr
    by (simp add: materialize_def chosen_body_def stamped_def fresh_def sample_lib_def
        stringContainsCTLByte_def Header_Set_def)
  have m3: "\<exists>req. fst (materialize sample_lib ?h3 ?b3) = Inr req \<and> Header req = ?h3"
      "map_of (snd (materialize sample_lib ?h3 ?b3)) ''Authorization'' = Some [''Basic u:p'']"
    unfolding m1
    by (simp_all add: materialize_def chosen_body_def stamped_def fresh_def sample_lib_def
        stringContainsCTLByte_def Header_Set_def)
  then obtain req where r: "fst (materialize sample_lib ?h3 ?b3) = Inr req" "Header req = ?h3"
    by blast
  show ?thesis
    using 1(1) 2(1) 3(1,3) 4 m3(2) r
    by (intro exI [of _ c1] exI [of _ s1] exI [of _ "fst (materialize sample_lib ?h1 ?b1)"]
          exI [of _ s2] exI [of _ c2] exI [of _ s3] exI [of _ req] exI [of _ s4]
          exI [of _ "snd (materialize sample_lib ?h3 ?b3)"]) simp
qed

section \<open>The response wrapper: claim C9\<close>



end
